theory Spec2Isabelle
  imports Main "HOL-Library.Word"
begin

chapter \<open>The model\<close>

section \<open>Shared types\<close>

text \<open>
  Inode numbers, device numbers and kernel handles are 64-bit values that the code only
  stores and compares. Token ids and vector sizes are natural numbers: a vector of
  \<open>2 ^ 64\<close> entries does not fit in memory, so these 64-bit counters of the source
  cannot wrap. Lookup counts are natural numbers too: they go up by one per lookup.
\<close>

type_synonym u64 = "64 word"

text \<open>\<open>std::out_of_range\<close>, thrown by \<open>std::vector::at\<close>.\<close>

datatype exn = OutOfRange

text \<open>
  How a call ends: it returns, it aborts the process (\<open>LOG(FATAL)\<close>, \<open>PCHECK\<close>,
  \<open>CHECK\<close>), it lets an exception escape, or it dereferences a handle whose record
  is gone (undefined behaviour).
\<close>

datatype 'a outcome = Returned 'a | Aborted | Threw exn | Undefined

section \<open>moniker.cpp: Token and TokenTable\<close>

text \<open>
  Fields \<open>value_\<close>, \<open>position_\<close> of \<open>Token\<close>, and \<open>id_\<close>, \<open>forward_\<close>,
  \<open>reverse_\<close> of \<open>TokenTable\<close>. The hash set \<open>forward_\<close> hashes and compares a
  token by its value only, so it is a map from the value to the token stored. The
  vector \<open>reverse_\<close> holds pointers to tokens of the node hash set; tokens are
  immutable and never move, so the vector is the list of the tokens pointed to.
\<close>

record Token =
  tok_value :: string
  tok_position :: nat

record TokenTable =
  tt_id :: nat
  tt_forward :: "string \<rightharpoonup> Token"
  tt_reverse :: "Token list"

definition TokenTable_new :: TokenTable where
  "TokenTable_new = \<lparr>tt_id = 0, tt_forward = Map.empty, tt_reverse = []\<rparr>"

definition GetOrInsert :: "TokenTable \<Rightarrow> string \<Rightarrow> (nat \<times> bool) \<times> TokenTable" where
  "GetOrInsert t token =
     (let ident = tt_id t;
          t1 = t\<lparr>tt_id := tt_id t + 1\<rparr>
      in case tt_forward t1 token of
           None \<Rightarrow>
             (let tok = \<lparr>tok_value = token, tok_position = ident\<rparr>
              in ((ident, True),
                  t1\<lparr>tt_forward := (tt_forward t1)(token \<mapsto> tok),
                     tt_reverse := tt_reverse t1 @ [tok]\<rparr>))
         | Some tok \<Rightarrow> ((tok_position tok, False), t1\<lparr>tt_id := tt_id t1 - 1\<rparr>))"

text \<open>
  \<open>reverse_.at(id)\<close> throws when \<open>id\<close> is not below the size; the guard before it
  lets \<open>id = size\<close> through.
\<close>

definition ReverseLookup :: "TokenTable \<Rightarrow> nat \<Rightarrow> exn + string option" where
  "ReverseLookup t k =
     (if length (tt_reverse t) < k then Inr None
      else if k < length (tt_reverse t) then Inr (Some (tok_value (tt_reverse t ! k)))
      else Inl OutOfRange)"

text \<open>A sequence of \<open>GetOrInsert\<close> calls on one table, with the pair each call returns.\<close>

fun GetOrInsert_seq :: "TokenTable \<Rightarrow> string list \<Rightarrow> (nat \<times> bool) list \<times> TokenTable" where
  "GetOrInsert_seq t [] = ([], t)"
| "GetOrInsert_seq t (s # ss) =
     (let (r, t1) = GetOrInsert t s;
          (rs, t2) = GetOrInsert_seq t1 ss
      in (r # rs, t2))"

section \<open>moniker.cpp: MonikerNode\<close>

text \<open>
  Trie nodes live in a store; the address of a node is its index, the root of a table is
  at address 0 and a new node is allocated at the end. A node has \<open>name_\<close>,
  \<open>children_\<close> (component id to the address of the child it owns) and \<open>parent_\<close>
  (\<open>None\<close> is the null pointer).
\<close>

type_synonym addr = nat

record MonikerNode =
  node_name :: nat
  node_children :: "nat \<rightharpoonup> addr"
  node_parent :: "addr option"

type_synonym store = "MonikerNode list"

definition MonikerNode_new :: "nat \<Rightarrow> addr option \<Rightarrow> MonikerNode" where
  "MonikerNode_new name parent =
     \<lparr>node_name = name, node_children = Map.empty, node_parent = parent\<rparr>"

text \<open>\<open>MonikerNode::Get\<close>: the child under \<open>word\<close>, created when there is none.\<close>

definition MonikerNode_Get :: "store \<Rightarrow> addr \<Rightarrow> nat \<Rightarrow> addr \<times> store" where
  "MonikerNode_Get h this word =
     (case node_children (h ! this) word of
        Some c \<Rightarrow> (c, h)
      | None \<Rightarrow>
          (let c = length h;
               n = (h ! this)\<lparr>node_children := (node_children (h ! this))(word \<mapsto> c)\<rparr>
           in (c, h[this := n] @ [MonikerNode_new word (Some this)])))"

text \<open>
  \<open>MonikerNode::Path\<close>: the loop climbs the parent pointers and pushes each name on a
  stack. The stack is a list with its top first. On a store with a cycle of parent
  pointers the loop does not end: the result is \<open>None\<close> then.
\<close>

partial_function (option) Path_loop :: "store \<Rightarrow> addr \<Rightarrow> nat list \<Rightarrow> nat list option" where
  "Path_loop h node result =
     (case node_parent (h ! node) of
        None \<Rightarrow> Some result
      | Some p \<Rightarrow> Path_loop h p (node_name (h ! node) # result))"

definition MonikerNode_Path :: "store \<Rightarrow> addr \<Rightarrow> nat list option" where
  "MonikerNode_Path h this = Path_loop h this []"

section \<open>moniker.cpp: MonikerTable\<close>

record MonikerTable =
  mt_nodes :: store
  mt_id_to_terminal :: "u64 \<rightharpoonup> addr"
  mt_tokens :: TokenTable
  mt_root_node_id :: u64

definition kPathSeparatorChar :: char where
  "kPathSeparatorChar = CHR ''/''"

text \<open>
  \<open>std::getline(stream, component, delim)\<close>: fails at the end of the stream; otherwise it
  extracts the characters before the next delimiter and discards that delimiter.
\<close>

definition getline :: "string \<Rightarrow> char \<Rightarrow> (string \<times> string) option" where
  "getline stream delim =
     (if stream = [] then None
      else (let component = takeWhile (\<lambda>c. c \<noteq> delim) stream
            in Some (component, drop (Suc (length component)) stream)))"

function Tokenize_loop :: "TokenTable \<Rightarrow> string \<Rightarrow> nat list \<Rightarrow> nat list \<times> TokenTable" where
  "Tokenize_loop tokens stream result =
     (case getline stream kPathSeparatorChar of
        None \<Rightarrow> (result, tokens)
      | Some (component, rest) \<Rightarrow>
          (if component \<noteq> []
           then (case GetOrInsert tokens component of
                   ((token_id, inserted), tokens') \<Rightarrow>
                     Tokenize_loop tokens' rest (result @ [token_id]))
           else Tokenize_loop tokens rest result))"
  by pat_completeness auto
termination
  by (relation "measure (\<lambda>(tokens, stream, result). length stream)")
     (auto simp: getline_def Let_def split: if_splits)

definition Tokenize :: "TokenTable \<Rightarrow> string \<Rightarrow> nat list \<times> TokenTable" where
  "Tokenize tokens path = Tokenize_loop tokens path []"

text \<open>The loop of \<open>Insert\<close>: \<open>node = node->Get(token)\<close> for every token.\<close>

fun descend :: "store \<Rightarrow> addr \<Rightarrow> nat list \<Rightarrow> addr \<times> store" where
  "descend h node [] = (node, h)"
| "descend h node (token # tokens) =
     (case MonikerNode_Get h node token of (node', h') \<Rightarrow> descend h' node' tokens)"

text \<open>\<open>id_to_terminal_.emplace(id, node)\<close> leaves an entry that is there as it is.\<close>

definition MonikerTable_Insert :: "MonikerTable \<Rightarrow> u64 \<Rightarrow> string \<Rightarrow> bool \<times> MonikerTable" where
  "MonikerTable_Insert m ident path =
     (case Tokenize (mt_tokens m) path of
        (tokens, tt) \<Rightarrow>
          (case descend (mt_nodes m) 0 tokens of
             (node, h) \<Rightarrow>
               (let terminal_inserted = (mt_id_to_terminal m ident = None)
                in (terminal_inserted,
                    m\<lparr>mt_nodes := h,
                      mt_tokens := tt,
                      mt_id_to_terminal :=
                        (if terminal_inserted then (mt_id_to_terminal m)(ident \<mapsto> node)
                         else mt_id_to_terminal m)\<rparr>))))"

definition MonikerTable_new :: "u64 \<Rightarrow> MonikerTable" where
  "MonikerTable_new root_node_id =
     snd (MonikerTable_Insert
            \<lparr>mt_nodes = [MonikerNode_new 0 None],
             mt_id_to_terminal = Map.empty,
             mt_tokens = TokenTable_new,
             mt_root_node_id = root_node_id\<rparr>
            root_node_id ''<root>'')"

text \<open>
  The loop of \<open>MonikerTable::Get\<close> over the stack: a missing token ends it with
  \<open>nullopt\<close>, an exception of the reverse lookup escapes.
\<close>

fun Get_loop :: "TokenTable \<Rightarrow> nat list \<Rightarrow> string \<Rightarrow> exn + string option" where
  "Get_loop tokens [] result = Inr (Some result)"
| "Get_loop tokens (component # stack) result =
     (case ReverseLookup tokens component of
        Inl e \<Rightarrow> Inl e
      | Inr None \<Rightarrow> Inr None
      | Inr (Some token) \<Rightarrow>
          Get_loop tokens stack (result @ token @ (if stack \<noteq> [] then ''/'' else [])))"

text \<open>
  \<open>MonikerTable::Get(id, offset, fully_qualified)\<close>; the last two parameters are not
  read. The outer \<open>None\<close> is a \<open>Path\<close> that does not return.
\<close>

definition MonikerTable_Get ::
  "MonikerTable \<Rightarrow> u64 \<Rightarrow> nat \<Rightarrow> bool \<Rightarrow> (exn + string option) option" where
  "MonikerTable_Get m ident offset fully_qualified =
     (case mt_id_to_terminal m ident of
        None \<Rightarrow> Some (Inr None)
      | Some node \<Rightarrow>
          (case MonikerNode_Path (mt_nodes m) node of
             None \<Rightarrow> None
           | Some stack \<Rightarrow> Some (Get_loop (mt_tokens m) stack [])))"


text \<open>\<open>Clear\<close> empties the index and destroys every node below the root.\<close>

definition MonikerTable_Clear :: "MonikerTable \<Rightarrow> MonikerTable" where
  "MonikerTable_Clear m =
     m\<lparr>mt_id_to_terminal := Map.empty,
       mt_nodes := [(mt_nodes m ! 0)\<lparr>node_children := Map.empty\<rparr>]\<rparr>"

text \<open>The tables a program can hold: built by the constructor, changed by the mutators.\<close>

inductive reachable :: "MonikerTable \<Rightarrow> bool" where
  reachable_new: "reachable (MonikerTable_new r)"
| reachable_Insert: "reachable m \<Longrightarrow> reachable (snd (MonikerTable_Insert m i p))"
| reachable_Clear: "reachable m \<Longrightarrow> reachable (MonikerTable_Clear m)"

subsection \<open>What the specification says a path resolves to\<close>

text \<open>
  Splitting on a separator in the usual sense (\<open>n\<close> separators give \<open>n + 1\<close> pieces),
  the non-empty pieces, and joining with the separator between neighbours.
\<close>

fun split_on :: "char \<Rightarrow> string \<Rightarrow> string list" where
  "split_on d [] = [[]]"
| "split_on d (c # cs) =
     (if c = d then [] # split_on d cs
      else (case split_on d cs of [] \<Rightarrow> [[c]] | p # ps \<Rightarrow> (c # p) # ps))"

definition components :: "string \<Rightarrow> string list" where
  "components p = filter (\<lambda>c. c \<noteq> []) (split_on CHR ''/'' p)"

fun join_with :: "char \<Rightarrow> string list \<Rightarrow> string" where
  "join_with d [] = []"
| "join_with d [c] = c"
| "join_with d (c # c' # cs) = c @ d # join_with d (c' # cs)"

section \<open>Auxiliary notions for the token table\<close>

text \<open>
  The strings of the reverse vector in id order, the consistency of the three fields of a
  table, the position of the first occurrence of an element of a list, and the list of
  distinct strings in the order they were first seen.
\<close>

definition vals :: "TokenTable \<Rightarrow> string list" where
  "vals t = map tok_value (tt_reverse t)"

definition tt_inv :: "TokenTable \<Rightarrow> bool" where
  "tt_inv t \<longleftrightarrow>
     tt_id t = length (tt_reverse t) \<and>
     distinct (vals t) \<and>
     (\<forall>s. (tt_forward t s = None) = (s \<notin> set (vals t))) \<and>
     (\<forall>s tok. tt_forward t s = Some tok \<longrightarrow>
        tok_value tok = s \<and> tok_position tok < length (tt_reverse t) \<and>
        tt_reverse t ! tok_position tok = tok)"

fun first_index :: "'a list \<Rightarrow> 'a \<Rightarrow> nat" where
  "first_index [] y = 0"
| "first_index (x # xs) y = (if x = y then 0 else Suc (first_index xs y))"

definition ins :: "'a \<Rightarrow> 'a list \<Rightarrow> 'a list" where
  "ins s vs = (if s \<in> set vs then vs else vs @ [s])"

fun seq_spec :: "string list \<Rightarrow> string list \<Rightarrow> (nat \<times> bool) list" where
  "seq_spec vs [] = []"
| "seq_spec vs (s # ss) = (first_index (ins s vs) s, s \<notin> set vs) # seq_spec (ins s vs) ss"

section \<open>Auxiliary notions for the trie\<close>

text \<open>
  Well-formed stores (the root has no parent; a child entry points to a node whose parent
  and name agree with it; a parent has a smaller address than its child; every name
  below the root is an issued token id), the component ids on the way from a node up to
  the root, stores that agree on the nodes of an older store, and well-formed tables.
\<close>

definition hinv :: "store \<Rightarrow> nat \<Rightarrow> bool" where
  "hinv h N \<longleftrightarrow>
     h \<noteq> [] \<and> node_parent (h ! 0) = None \<and>
     (\<forall>a<length h. \<forall>w c. node_children (h ! a) w = Some c \<longrightarrow>
        c < length h \<and> node_parent (h ! c) = Some a \<and> node_name (h ! c) = w) \<and>
     (\<forall>a<length h. \<forall>p. node_parent (h ! a) = Some p \<longrightarrow> p < a \<and> node_name (h ! a) < N)"

fun chain :: "store \<Rightarrow> addr \<Rightarrow> nat list \<Rightarrow> bool" where
  "chain h a [] = (node_parent (h ! a) = None)"
| "chain h a (k # ks) =
     (case node_parent (h ! a) of
        None \<Rightarrow> False
      | Some p \<Rightarrow> node_name (h ! a) = k \<and> chain h p ks)"

definition ext :: "store \<Rightarrow> store \<Rightarrow> bool" where
  "ext h h' \<longleftrightarrow>
     length h \<le> length h' \<and>
     (\<forall>b<length h. node_parent (h' ! b) = node_parent (h ! b) \<and>
                    node_name (h' ! b) = node_name (h ! b))"

definition minv :: "MonikerTable \<Rightarrow> bool" where
  "minv m \<longleftrightarrow>
     tt_inv (mt_tokens m) \<and> hinv (mt_nodes m) (length (tt_reverse (mt_tokens m)))"

text \<open>
  Every entry of the terminal index points into the store. A sequence of \<open>Insert\<close>
  calls on one table, as the scan of \<open>tracker.cpp\<close> makes them for the entries it
  finds (inode number and path below the source root).
\<close>

definition tinv :: "MonikerTable \<Rightarrow> bool" where
  "tinv m \<longleftrightarrow> (\<forall>i a. mt_id_to_terminal m i = Some a \<longrightarrow> a < length (mt_nodes m))"

fun Insert_all :: "MonikerTable \<Rightarrow> (u64 \<times> string) list \<Rightarrow> MonikerTable" where
  "Insert_all m [] = m"
| "Insert_all m ((i, p) # xs) = Insert_all (snd (MonikerTable_Insert m i p)) xs"

section \<open>tablet.cpp: Tablet and Tablets\<close>

text \<open>
  A tablet holds a pointer \<open>data_\<close> to a hash set of inode numbers; no two tablets
  share a set, so the tablet is modelled by the set it points to.
\<close>

record Tablet =
  tab_data :: "u64 set"

definition Tablet_new :: Tablet where
  "Tablet_new = \<lparr>tab_data = {}\<rparr>"

definition Tablet_Insert :: "Tablet \<Rightarrow> u64 \<Rightarrow> bool \<times> Tablet" where
  "Tablet_Insert t datum = (datum \<notin> tab_data t, t\<lparr>tab_data := insert datum (tab_data t)\<rparr>)"

definition Tablet_Swap :: "Tablet \<Rightarrow> Tablet \<Rightarrow> Tablet \<times> Tablet" where
  "Tablet_Swap t other = (t\<lparr>tab_data := tab_data other\<rparr>, other\<lparr>tab_data := tab_data t\<rparr>)"

definition Tablet_Size :: "Tablet \<Rightarrow> nat" where
  "Tablet_Size t = card (tab_data t)"

text \<open>The vector \<open>tablets_\<close>: slot \<open>i\<close> is the tablet of logical thread \<open>i\<close>.\<close>

record Tablets =
  tablets :: "Tablet list"

definition Tablets_new :: Tablets where
  "Tablets_new = \<lparr>tablets = []\<rparr>"

text \<open>
  \<open>Tablets::At(index)\<close> returns the tablet in slot \<open>index\<close>, after appending
  \<open>index + 1 - size\<close> new tablets when the size is not above \<open>index + 1\<close>. The model
  returns the store; the tablet returned is its slot \<open>index\<close>.
\<close>

definition Tablets_At :: "Tablets \<Rightarrow> nat \<Rightarrow> Tablets" where
  "Tablets_At ts index =
     (if length (tablets ts) > index + 1 then ts
      else ts\<lparr>tablets := tablets ts @ replicate (index + 1 - length (tablets ts)) Tablet_new\<rparr>)"

text \<open>
  \<open>Tablets::Sweep\<close>. The first loop swaps the storage of every live tablet with
  that of a new tablet; the second merges every swapped tablet into \<open>into\<close>.
  \<open>flat_hash_set::merge\<close> moves to the target the elements that the target does not
  hold and leaves the others in the source.
\<close>

fun swap_loop :: "Tablet list \<Rightarrow> Tablet list \<Rightarrow> Tablet list \<times> Tablet list" where
  "swap_loop (tab # tabs) (sw # sws) =
     (case Tablet_Swap tab sw of
        (tab', sw') \<Rightarrow>
          (case swap_loop tabs sws of (tabs', sws') \<Rightarrow> (tab' # tabs', sw' # sws')))"
| "swap_loop tabs sws = (tabs, sws)"

definition hash_set_merge :: "u64 set \<Rightarrow> u64 set \<Rightarrow> u64 set \<times> u64 set" where
  "hash_set_merge dst src = (dst \<union> src, src \<inter> dst)"

fun merge_loop :: "Tablet \<Rightarrow> Tablet list \<Rightarrow> Tablet" where
  "merge_loop into [] = into"
| "merge_loop into (sw # sws) =
     merge_loop (into\<lparr>tab_data := fst (hash_set_merge (tab_data into) (tab_data sw))\<rparr>) sws"

definition Sweep :: "Tablets \<Rightarrow> Tablet \<Rightarrow> Tablets \<times> Tablet" where
  "Sweep ts into =
     (let count = length (tablets ts);
          swap_tablets = replicate count Tablet_new
      in case swap_loop (tablets ts) swap_tablets of
           (live, swapped) \<Rightarrow> (ts\<lparr>tablets := live\<rparr>, merge_loop into swapped))"

section \<open>fs.cpp: Context and AttributionFrame\<close>

datatype UseAttribution =
    LookupUseAttribution | MkdirUseAttribution | MknodUseAttribution
  | SymlinkUseAttribution | LinkUseAttribution | UnlinkUseAttribution
  | RmdirUseAttribution | RenameUseAttribution | ForgetUseAttribution
  | ForgetOneUseAttribution | ForgetMultiUseAttribution | GetattrUseAttribution
  | SetattrUseAttribution | ReadlinkUseAttribution | OpendirUseAttribution
  | ReaddirUseAttribution | ReaddirplusUseAttribution | ReleasedirUseAttribution
  | FsyncdirUseAttribution | CreateUseAttribution | OpenUseAttribution
  | ReleaseUseAttribution | FlushUseAttribution | FsyncUseAttribution
  | ReadUseAttribution | WriteBufUseAttribution | StatfsUseAttribution
  | FallocateUseAttribution | FlockUseAttribution | SetxattrUseAttribution
  | GetxattrUseAttribution | ListxattrUseAttribution | RemovexattrUseAttribution
  | QuiescenceUseAttribution

text \<open>
  A context has the flag \<open>enabled_\<close> and the pointer \<open>parent_\<close>, which is null for
  the root context only.
\<close>

record Context =
  ctx_enabled :: bool
  ctx_has_parent :: bool

text \<open>
  What the tracer acts on, seen from the thread that runs a handler: the process-wide
  tablet store, the thread's own \<open>attribution_stack\<close> (top first) and the thread's
  logical id. A frame holds \<open>context_\<close>; the constructor receives the attribution
  and does not store it.
\<close>

record AttributionFrame =
  frame_context :: Context

record tracer_state =
  tablet_store :: Tablets
  attribution_stack :: "AttributionFrame list"
  logical_thread_id :: nat

text \<open>
  \<open>Context::AddInode\<close>: \<open>GetTablets()->GetTabletForThisThread()->Insert(inode)\<close>. It
  reads no field of the context.
\<close>

definition AddInode :: "Context \<Rightarrow> u64 \<Rightarrow> tracer_state \<Rightarrow> tracer_state" where
  "AddInode ctx inode st =
     (let tid = logical_thread_id st;
          ts = Tablets_At (tablet_store st) tid;
          tablet = snd (Tablet_Insert (tablets ts ! tid) inode)
      in st\<lparr>tablet_store := ts\<lparr>tablets := (tablets ts)[tid := tablet]\<rparr>\<rparr>)"

text \<open>
  \<open>Context::Add\<close>: fatal on the root context, nothing when the context is disabled,
  \<open>AddInode\<close> of the inode number of the source id otherwise.
\<close>

definition Context_Add :: "Context \<Rightarrow> u64 \<times> u64 \<Rightarrow> tracer_state \<Rightarrow> tracer_state outcome" where
  "Context_Add ctx src_id st =
     (if \<not> ctx_has_parent ctx then Aborted
      else if \<not> ctx_enabled ctx then Returned st
      else Returned (AddInode ctx (fst src_id) st))"

text \<open>The two constructors of \<open>AttributionFrame\<close>: without and with an inode.\<close>

definition AttributionFrame_new ::
  "Context \<Rightarrow> UseAttribution \<Rightarrow> tracer_state \<Rightarrow> tracer_state" where
  "AttributionFrame_new ctx attribution st =
     st\<lparr>attribution_stack := \<lparr>frame_context = ctx\<rparr> # attribution_stack st\<rparr>"

definition AttributionFrame_new_inode ::
  "Context \<Rightarrow> UseAttribution \<Rightarrow> u64 \<Rightarrow> tracer_state \<Rightarrow> tracer_state" where
  "AttributionFrame_new_inode ctx attribution inode st =
     AddInode ctx inode (AttributionFrame_new ctx attribution st)"

section \<open>fs.cpp: the handlers registered by assign-operations\<close>

text \<open>The fields of \<open>fuse_lowlevel_ops\<close> that \<open>assign_operations\<close> sets.\<close>

datatype fuse_op =
    op_init | op_destroy | op_lookup | op_mkdir | op_mknod | op_symlink | op_link
  | op_unlink | op_rmdir | op_rename | op_forget | op_forget_multi | op_getattr
  | op_setattr | op_readlink | op_opendir | op_readdir | op_readdirplus
  | op_releasedir | op_fsyncdir | op_create | op_open | op_release | op_flush
  | op_fsync | op_read | op_write_buf | op_statfs | op_fallocate | op_flock
  | op_setxattr | op_getxattr | op_listxattr | op_removexattr

text \<open>
  The statement that opens the body of each handler: no frame, a frame built with the
  two-argument constructor, or a frame built with the inode the handler received
  (\<open>parent\<close> for the handlers of directory entries, \<open>ino\<close> for the others).
\<close>

datatype frame_ctor = NoFrame | Frame UseAttribution | FrameInode UseAttribution

fun handler_frame :: "fuse_op \<Rightarrow> frame_ctor" where
  "handler_frame op_init = NoFrame"
| "handler_frame op_destroy = NoFrame"
| "handler_frame op_lookup = FrameInode LookupUseAttribution"
| "handler_frame op_mkdir = FrameInode MkdirUseAttribution"
| "handler_frame op_mknod = FrameInode MknodUseAttribution"
| "handler_frame op_symlink = FrameInode SymlinkUseAttribution"
| "handler_frame op_link = FrameInode LinkUseAttribution"
| "handler_frame op_unlink = Frame UnlinkUseAttribution"
| "handler_frame op_rmdir = FrameInode RmdirUseAttribution"
| "handler_frame op_rename = FrameInode RenameUseAttribution"
| "handler_frame op_forget = Frame ForgetUseAttribution"
| "handler_frame op_forget_multi = Frame ForgetMultiUseAttribution"
| "handler_frame op_getattr = FrameInode GetattrUseAttribution"
| "handler_frame op_setattr = FrameInode SetattrUseAttribution"
| "handler_frame op_readlink = FrameInode ReadlinkUseAttribution"
| "handler_frame op_opendir = FrameInode OpendirUseAttribution"
| "handler_frame op_readdir = FrameInode ReaddirUseAttribution"
| "handler_frame op_readdirplus = FrameInode ReaddirplusUseAttribution"
| "handler_frame op_releasedir = FrameInode ReleasedirUseAttribution"
| "handler_frame op_fsyncdir = FrameInode FsyncdirUseAttribution"
| "handler_frame op_create = FrameInode CreateUseAttribution"
| "handler_frame op_open = FrameInode OpenUseAttribution"
| "handler_frame op_release = NoFrame"
| "handler_frame op_flush = FrameInode FlushUseAttribution"
| "handler_frame op_fsync = FrameInode FsyncUseAttribution"
| "handler_frame op_read = NoFrame"
| "handler_frame op_write_buf = NoFrame"
| "handler_frame op_statfs = FrameInode StatfsUseAttribution"
| "handler_frame op_fallocate = FrameInode FallocateUseAttribution"
| "handler_frame op_flock = FrameInode FlockUseAttribution"
| "handler_frame op_setxattr = FrameInode SetxattrUseAttribution"
| "handler_frame op_getxattr = FrameInode GetxattrUseAttribution"
| "handler_frame op_listxattr = FrameInode ListxattrUseAttribution"
| "handler_frame op_removexattr = FrameInode RemovexattrUseAttribution"

text \<open>Entering a handler with the inode argument \<open>inode\<close> on the thread's context.\<close>

definition sfs_enter :: "fuse_op \<Rightarrow> Context \<Rightarrow> u64 \<Rightarrow> tracer_state \<Rightarrow> tracer_state" where
  "sfs_enter op ctx inode st =
     (case handler_frame op of
        NoFrame \<Rightarrow> st
      | Frame attribution \<Rightarrow> AttributionFrame_new ctx attribution st
      | FrameInode attribution \<Rightarrow> AttributionFrame_new_inode ctx attribution inode st)"

text \<open>The operation tag that carries the name of a handler, for the handlers that have one.\<close>

fun tag_of :: "fuse_op \<Rightarrow> UseAttribution option" where
  "tag_of op_init = None"
| "tag_of op_destroy = None"
| "tag_of op_lookup = Some LookupUseAttribution"
| "tag_of op_mkdir = Some MkdirUseAttribution"
| "tag_of op_mknod = Some MknodUseAttribution"
| "tag_of op_symlink = Some SymlinkUseAttribution"
| "tag_of op_link = Some LinkUseAttribution"
| "tag_of op_unlink = Some UnlinkUseAttribution"
| "tag_of op_rmdir = Some RmdirUseAttribution"
| "tag_of op_rename = Some RenameUseAttribution"
| "tag_of op_forget = Some ForgetUseAttribution"
| "tag_of op_forget_multi = Some ForgetMultiUseAttribution"
| "tag_of op_getattr = Some GetattrUseAttribution"
| "tag_of op_setattr = Some SetattrUseAttribution"
| "tag_of op_readlink = Some ReadlinkUseAttribution"
| "tag_of op_opendir = Some OpendirUseAttribution"
| "tag_of op_readdir = Some ReaddirUseAttribution"
| "tag_of op_readdirplus = Some ReaddirplusUseAttribution"
| "tag_of op_releasedir = Some ReleasedirUseAttribution"
| "tag_of op_fsyncdir = Some FsyncdirUseAttribution"
| "tag_of op_create = Some CreateUseAttribution"
| "tag_of op_open = Some OpenUseAttribution"
| "tag_of op_release = Some ReleaseUseAttribution"
| "tag_of op_flush = Some FlushUseAttribution"
| "tag_of op_fsync = Some FsyncUseAttribution"
| "tag_of op_read = Some ReadUseAttribution"
| "tag_of op_write_buf = Some WriteBufUseAttribution"
| "tag_of op_statfs = Some StatfsUseAttribution"
| "tag_of op_fallocate = Some FallocateUseAttribution"
| "tag_of op_flock = Some FlockUseAttribution"
| "tag_of op_setxattr = Some SetxattrUseAttribution"
| "tag_of op_getxattr = Some GetxattrUseAttribution"
| "tag_of op_listxattr = Some ListxattrUseAttribution"
| "tag_of op_removexattr = Some RemovexattrUseAttribution"

section \<open>fs.cpp: the inode registry\<close>

text \<open>
  An inode record has \<open>fd\<close> (\<open>-1\<close> when it holds no descriptor), \<open>src_dev\<close>,
  \<open>src_ino\<close> and \<open>nlookup\<close>. The registry \<open>fs.inodes\<close> maps a source id
  \<open>(ino, dev)\<close> to its record; \<open>fs.root\<close> is the record of the root, outside the map.
  The kernel's handle of a record is its address, which a node hash map never changes:
  the handle is modelled by the key of the record, and \<open>FUSE_ROOT_ID\<close> stands for the
  root. \<open>closes\<close> lists the descriptors passed to \<open>close(2)\<close>, in call order.
\<close>

type_synonym SrcId = "u64 \<times> u64"

record Inode =
  fd :: int
  src_dev :: u64
  src_ino :: u64
  nlookup :: nat

definition Inode_default :: Inode where
  "Inode_default = \<lparr>fd = -1, src_dev = 0, src_ino = 0, nlookup = 0\<rparr>"

datatype fuse_ino = FUSE_ROOT_ID | InodePtr SrcId

record Fs =
  inodes :: "SrcId \<rightharpoonup> Inode"
  root :: Inode
  closes :: "int list"

text \<open>\<open>Inode::~Inode\<close>: closes the descriptor when it is greater than zero.\<close>

definition Inode_dtor :: "Inode \<Rightarrow> int list \<Rightarrow> int list" where
  "Inode_dtor inode cl = (if fd inode > 0 then cl @ [fd inode] else cl)"

text \<open>\<open>fs.inodes.erase(key)\<close>: removes the record under the key and destroys it.\<close>

definition inodes_erase :: "Fs \<Rightarrow> SrcId \<Rightarrow> Fs" where
  "inodes_erase fs key =
     (case inodes fs key of
        None \<Rightarrow> fs
      | Some inode \<Rightarrow>
          fs\<lparr>inodes := (inodes fs)(key := None), closes := Inode_dtor inode (closes fs)\<rparr>)"

text \<open>
  \<open>get_inode\<close>: the root record for \<open>FUSE_ROOT_ID\<close>; otherwise the record the handle
  points to, fatal when its descriptor is \<open>-1\<close>. A handle whose record has been erased
  points to freed memory.
\<close>

definition get_inode :: "Fs \<Rightarrow> fuse_ino \<Rightarrow> Inode outcome" where
  "get_inode fs ino =
     (case ino of
        FUSE_ROOT_ID \<Rightarrow> Returned (root fs)
      | InodePtr key \<Rightarrow>
          (case inodes fs key of
             None \<Rightarrow> Undefined
           | Some inode \<Rightarrow> if fd inode = -1 then Aborted else Returned inode))"

text \<open>Writing through the reference that \<open>get_inode\<close> returned.\<close>

definition set_inode :: "Fs \<Rightarrow> fuse_ino \<Rightarrow> Inode \<Rightarrow> Fs" where
  "set_inode fs ino inode =
     (case ino of
        FUSE_ROOT_ID \<Rightarrow> fs\<lparr>root := inode\<rparr>
      | InodePtr key \<Rightarrow> fs\<lparr>inodes := (inodes fs)(key \<mapsto> inode)\<rparr>)"

text \<open>
  \<open>forget_one(ino, n)\<close> on the registry. (Its first statement builds a tracer frame with
  \<open>ForgetOneUseAttribution\<close> and \<open>ino\<close>; the frame acts on the tracer state only.)
\<close>

definition forget_one :: "Fs \<Rightarrow> fuse_ino \<Rightarrow> nat \<Rightarrow> Fs outcome" where
  "forget_one fs ino n =
     (case get_inode fs ino of
        Returned inode \<Rightarrow>
          (if n > nlookup inode then Aborted
           else (let inode' = inode\<lparr>nlookup := nlookup inode - n\<rparr>;
                     fs' = set_inode fs ino inode'
                 in if nlookup inode' = 0
                    then Returned (inodes_erase fs' (src_ino inode', src_dev inode'))
                    else Returned fs'))
      | Aborted \<Rightarrow> Aborted
      | Threw e \<Rightarrow> Threw e
      | Undefined \<Rightarrow> Undefined)"

text \<open>
  The registry part of \<open>do_lookup\<close>, entered once \<open>openat\<close> has returned the
  descriptor \<open>newfd\<close>, \<open>fstatat\<close> the source id \<open>id\<close>, and the device and
  reserved-inode checks have passed: \<open>fs.inodes[id]\<close> finds the record or makes a
  default one; a record that holds a descriptor gets one more lookup and \<open>newfd\<close> is
  closed, a new record takes \<open>newfd\<close> with a lookup count of one.
\<close>

definition do_lookup :: "Fs \<Rightarrow> SrcId \<Rightarrow> int \<Rightarrow> Fs" where
  "do_lookup fs ident newfd =
     (let inode = (case inodes fs ident of None \<Rightarrow> Inode_default | Some r \<Rightarrow> r)
      in if fd inode \<noteq> -1
         then fs\<lparr>inodes := (inodes fs)(ident \<mapsto> inode\<lparr>nlookup := nlookup inode + 1\<rparr>),
                 closes := closes fs @ [newfd]\<rparr>
         else fs\<lparr>inodes := (inodes fs)(ident \<mapsto>
                   inode\<lparr>src_ino := fst ident, src_dev := snd ident,
                         nlookup := 1, fd := newfd\<rparr>)\<rparr>)"

text \<open>The registry at the start of the main loop: no record, the root opened on \<open>root_fd\<close>.\<close>

definition Fs_init :: "int \<Rightarrow> Fs" where
  "Fs_init root_fd =
     \<lparr>inodes = Map.empty, root = Inode_default\<lparr>fd := root_fd, nlookup := 9999\<rparr>, closes = []\<rparr>"

section \<open>fs.cpp: writing the log\<close>

text \<open>
  The operating system, seen from the log descriptor: what the next calls of
  \<open>write(2)\<close> and \<open>fsync(2)\<close> will return, and the bytes the descriptor has accepted.
  A \<open>write\<close> returns the number of bytes it took or fails with an error number; an
  \<open>fsync\<close> succeeds or fails. When the list of results is used up, the run is not
  determined further and the model returns \<open>None\<close>.
\<close>

datatype errno = EINTR | EAGAIN | EWOULDBLOCK | EIO | ENOSPC | EBADF

datatype write_result = Wrote nat | WriteFailed errno

record os =
  os_writes :: "write_result list"
  os_fsyncs :: "bool list"
  os_out :: string

text \<open>
  \<open>TryWrite(fd, buf, buf_len)\<close>: the result is \<open>0\<close> when the whole buffer has been
  written and the negative result of \<open>write\<close> otherwise.
\<close>

fun TryWrite :: "write_result list \<Rightarrow> string \<Rightarrow> string \<Rightarrow> (int \<times> write_result list \<times> string) option" where
  "TryWrite script out [] = Some (0, script, out)"
| "TryWrite [] out (b # bs) = None"
| "TryWrite (WriteFailed e # script) out (b # bs) =
     (if e = EINTR \<or> e = EAGAIN \<or> e = EWOULDBLOCK then TryWrite script out (b # bs)
      else Some (-1, script, out))"
| "TryWrite (Wrote n # script) out (b # bs) =
     (let k = min n (length (b # bs))
      in TryWrite script (out @ take k (b # bs)) (drop k (b # bs)))"

text \<open>\<open>TryFsync(fd, tries)\<close>: true at the first \<open>fsync\<close> that succeeds.\<close>

fun TryFsync :: "bool list \<Rightarrow> nat \<Rightarrow> (bool \<times> bool list) option" where
  "TryFsync script 0 = Some (False, script)"
| "TryFsync [] (Suc tries) = None"
| "TryFsync (ok # script) (Suc tries) =
     (if ok then Some (True, script) else TryFsync script tries)"

text \<open>
  The \<open>std::string\<close> buffer: its characters and its capacity. \<open>reserve\<close> and an
  append raise the capacity to what is needed when it is less (the standard asks for no
  more), \<open>clear\<close> keeps it.
\<close>

record strbuf =
  sb_data :: string
  sb_capacity :: nat

definition strbuf_new :: strbuf where
  "strbuf_new = \<lparr>sb_data = [], sb_capacity = 0\<rparr>"

definition strbuf_reserve :: "strbuf \<Rightarrow> nat \<Rightarrow> strbuf" where
  "strbuf_reserve b n = b\<lparr>sb_capacity := max (sb_capacity b) n\<rparr>"

definition strbuf_append :: "strbuf \<Rightarrow> string \<Rightarrow> strbuf" where
  "strbuf_append b s =
     \<lparr>sb_data = sb_data b @ s, sb_capacity = max (sb_capacity b) (length (sb_data b @ s))\<rparr>"

definition strbuf_clear :: "strbuf \<Rightarrow> strbuf" where
  "strbuf_clear b = b\<lparr>sb_data := []\<rparr>"

definition kLogWriterBufferSize :: nat where
  "kLogWriterBufferSize = 4 * 1024 * 1024"

text \<open>
  The loop of \<open>Context::WriteLog\<close> over the inodes of the aggregated tablet, in the
  order the hash set's iterator yields them. \<open>resolve\<close> is \<open>monikers.Get(inode, 1)\<close>.
\<close>

fun WriteLog_loop ::
  "(u64 \<Rightarrow> (exn + string option) option) \<Rightarrow> write_result list \<Rightarrow> string \<Rightarrow> strbuf \<Rightarrow>
   u64 list \<Rightarrow> (write_result list \<times> string \<times> strbuf) outcome option" where
  "WriteLog_loop resolve script out buf [] = Some (Returned (script, out, buf))"
| "WriteLog_loop resolve script out buf (inode # rest) =
     (case resolve inode of
        None \<Rightarrow> None
      | Some (Inl e) \<Rightarrow> Some (Threw e)
      | Some (Inr None) \<Rightarrow> WriteLog_loop resolve script out buf rest
      | Some (Inr (Some path)) \<Rightarrow>
          (if sb_capacity buf < length path
           then (case TryWrite script out (sb_data buf) of
                   None \<Rightarrow> None
                 | Some (written, script', out') \<Rightarrow>
                     if written \<noteq> 0 then Some Aborted
                     else WriteLog_loop resolve script' out'
                            (strbuf_append (strbuf_append (strbuf_clear buf) path) ''\<newline>'')
                            rest)
           else WriteLog_loop resolve script out
                  (strbuf_append (strbuf_append buf path) ''\<newline>'') rest))"

text \<open>
  \<open>Context::WriteLog(fd)\<close>. \<open>iter\<close> is the order in which the iterator of the
  aggregated hash set yields its elements. The result of \<open>TryFsync\<close> is not read.
\<close>

definition WriteLog ::
  "Context \<Rightarrow> (u64 set \<Rightarrow> u64 list) \<Rightarrow> MonikerTable \<Rightarrow> Tablets \<Rightarrow> os \<Rightarrow>
   (Tablets \<times> os) outcome option" where
  "WriteLog ctx iter monikers store os =
     (if \<not> ctx_enabled ctx then Some (Returned (store, os))
      else
        (let buf = strbuf_reserve strbuf_new kLogWriterBufferSize
         in case Sweep store Tablet_new of
              (store', aggregated) \<Rightarrow>
                (case WriteLog_loop (\<lambda>inode. MonikerTable_Get monikers inode 1 True)
                        (os_writes os) (os_out os) buf (iter (tab_data aggregated)) of
                   None \<Rightarrow> None
                 | Some Aborted \<Rightarrow> Some Aborted
                 | Some (Threw e) \<Rightarrow> Some (Threw e)
                 | Some Undefined \<Rightarrow> Some Undefined
                 | Some (Returned (script, out, buf')) \<Rightarrow>
                     (case TryWrite script out (sb_data buf') of
                        None \<Rightarrow> None
                      | Some (written, script', out') \<Rightarrow>
                          if written \<noteq> 0 then Some Aborted
                          else (case TryFsync (os_fsyncs os) 5 of
                                  None \<Rightarrow> None
                                | Some (ok, fsyncs') \<Rightarrow>
                                    Some (Returned (store',
                                      \<lparr>os_writes = script', os_fsyncs = fsyncs',
                                       os_out = out'\<rparr>)))))))"

text \<open>
  \<open>MaybeWritePidFile\<close>, from the write of the content to the check of
  \<open>TryFsync\<close>, for comparison: here the result of \<open>TryFsync\<close> is checked.
\<close>

definition WritePidFile :: "string \<Rightarrow> os \<Rightarrow> os outcome option" where
  "WritePidFile content os =
     (case TryWrite (os_writes os) (os_out os) content of
        None \<Rightarrow> None
      | Some (written, script', out') \<Rightarrow>
          if written \<noteq> 0 then Some Aborted
          else (case TryFsync (os_fsyncs os) 5 of
                  None \<Rightarrow> None
                | Some (ok, fsyncs') \<Rightarrow>
                    if \<not> ok then Some Aborted
                    else Some (Returned \<lparr>os_writes = script', os_fsyncs = fsyncs',
                                         os_out = out'\<rparr>)))"

section \<open>Auxiliary notions for the registry\<close>

text \<open>
  The records of the registry have a positive lookup count, hold a descriptor, and sit
  under the key made of their own source inode and device.
\<close>

definition reg_inv :: "Fs \<Rightarrow> bool" where
  "reg_inv fs \<longleftrightarrow>
     (\<forall>key r. inodes fs key = Some r \<longrightarrow>
        0 < nlookup r \<and> fd r \<noteq> -1 \<and> (src_ino r, src_dev r) = key)"





section \<open>What the specification says a log holds\<close>



chapter \<open>Verification\<close>

section \<open>TokenTable\<close>

lemma tt_inv_new: "tt_inv TokenTable_new"
  by (simp add: tt_inv_def TokenTable_new_def vals_def)

lemma first_index_append_in: "y \<in> set xs \<Longrightarrow> first_index (xs @ ys) y = first_index xs y"
  by (induction xs) auto

lemma first_index_append_notin:
  "y \<notin> set xs \<Longrightarrow> first_index (xs @ ys) y = length xs + first_index ys y"
  by (induction xs) auto

lemma first_index_nth: "y \<in> set xs \<Longrightarrow> xs ! first_index xs y = y"
  by (induction xs) auto

lemma first_index_less: "y \<in> set xs \<Longrightarrow> first_index xs y < length xs"
  by (induction xs) auto

lemma first_index_nth_distinct:
  "distinct xs \<Longrightarrow> k < length xs \<Longrightarrow> first_index xs (xs ! k) = k"
proof (induction xs arbitrary: k)
  case Nil
  then show ?case by simp
next
  case (Cons x xs)
  show ?case
  proof (cases k)
    case 0
    then show ?thesis by simp
  next
    case (Suc j)
    with Cons.prems have "j < length xs" "xs ! j \<in> set xs" "x \<notin> set xs" by auto
    with Cons Suc show ?thesis by auto
  qed
qed

lemma GetOrInsert_new:
  assumes "tt_inv t" "s \<notin> set (vals t)"
  shows "fst (GetOrInsert t s) = (length (vals t), True)"
    and "vals (snd (GetOrInsert t s)) = vals t @ [s]"
    and "tt_inv (snd (GetOrInsert t s))"
proof -
  from assms have none: "tt_forward t s = None" and idl: "tt_id t = length (tt_reverse t)"
    by (auto simp: tt_inv_def)
  show "fst (GetOrInsert t s) = (length (vals t), True)"
    using none idl by (simp add: GetOrInsert_def Let_def vals_def)
  show v: "vals (snd (GetOrInsert t s)) = vals t @ [s]"
    using none by (simp add: GetOrInsert_def Let_def vals_def)
  have r: "tt_reverse (snd (GetOrInsert t s)) =
      tt_reverse t @ [\<lparr>tok_value = s, tok_position = length (tt_reverse t)\<rparr>]"
    using none idl by (simp add: GetOrInsert_def Let_def)
  have f: "tt_forward (snd (GetOrInsert t s)) =
      (tt_forward t)(s \<mapsto> \<lparr>tok_value = s, tok_position = length (tt_reverse t)\<rparr>)"
    using none idl by (simp add: GetOrInsert_def Let_def)
  have i: "tt_id (snd (GetOrInsert t s)) = Suc (length (tt_reverse t))"
    using none idl by (simp add: GetOrInsert_def Let_def)
  show "tt_inv (snd (GetOrInsert t s))"
    unfolding tt_inv_def
  proof (intro conjI allI impI)
    show "tt_id (snd (GetOrInsert t s)) = length (tt_reverse (snd (GetOrInsert t s)))"
      by (simp add: i r)
    show "distinct (vals (snd (GetOrInsert t s)))"
      using assms by (simp add: v tt_inv_def)
    show "(tt_forward (snd (GetOrInsert t s)) u = None) = (u \<notin> set (vals (snd (GetOrInsert t s))))" for u
      using assms by (auto simp: f v tt_inv_def)
  next
    fix u tok
    assume a: "tt_forward (snd (GetOrInsert t s)) u = Some tok"
    show "tok_value tok = u"
      using a assms by (auto simp: f tt_inv_def split: if_splits)
    show "tok_position tok < length (tt_reverse (snd (GetOrInsert t s)))"
      using a assms by (auto simp: f r tt_inv_def less_Suc_eq split: if_splits)
    show "tt_reverse (snd (GetOrInsert t s)) ! tok_position tok = tok"
      using a assms by (auto simp: f r tt_inv_def nth_append split: if_splits)
  qed
qed

lemma GetOrInsert_old:
  assumes "tt_inv t" "s \<in> set (vals t)"
  shows "fst (GetOrInsert t s) = (first_index (vals t) s, False)"
    and "snd (GetOrInsert t s) = t"
proof -
  from assms obtain tok where some: "tt_forward t s = Some tok"
    by (fastforce simp: tt_inv_def)
  with assms have tok: "tok_value tok = s" "tok_position tok < length (tt_reverse t)"
    "tt_reverse t ! tok_position tok = tok"
    by (auto simp: tt_inv_def)
  have "vals t ! tok_position tok = s"
    using tok by (simp add: vals_def)
  moreover have "distinct (vals t)" "tok_position tok < length (vals t)"
    using assms tok by (auto simp: tt_inv_def vals_def)
  ultimately have "first_index (vals t) s = tok_position tok"
    using first_index_nth_distinct by metis
  then show "fst (GetOrInsert t s) = (first_index (vals t) s, False)"
    using some by (simp add: GetOrInsert_def Let_def)
  show "snd (GetOrInsert t s) = t"
    using some by (simp add: GetOrInsert_def Let_def)
qed

lemma GetOrInsert_ins:
  assumes "tt_inv t"
  shows "tt_inv (snd (GetOrInsert t s))"
    and "vals (snd (GetOrInsert t s)) = ins s (vals t)"
    and "fst (GetOrInsert t s) = (first_index (ins s (vals t)) s, s \<notin> set (vals t))"
  using assms GetOrInsert_new[of t s] GetOrInsert_old[of t s]
  by (cases "s \<in> set (vals t)"; simp add: ins_def first_index_append_notin)+

lemma GetOrInsert_seq_spec:
  "tt_inv t \<Longrightarrow>
     tt_inv (snd (GetOrInsert_seq t ss)) \<and>
     vals (snd (GetOrInsert_seq t ss)) = fold ins ss (vals t) \<and>
     fst (GetOrInsert_seq t ss) = seq_spec (vals t) ss"
proof (induction ss arbitrary: t)
  case Nil
  then show ?case by simp
next
  case (Cons s ss)
  obtain r t1 where g: "GetOrInsert t s = (r, t1)" by (cases "GetOrInsert t s")
  from GetOrInsert_ins[OF Cons.prems, of s] g
  have 1: "tt_inv t1" "vals t1 = ins s (vals t)"
    "r = (first_index (ins s (vals t)) s, s \<notin> set (vals t))" by auto
  from Cons.IH[OF 1(1)] g 1 show ?case
    by (simp add: split_beta)
qed


lemma set_ins: "set (ins s vs) = insert s (set vs)"
  by (auto simp: ins_def)

lemma fold_ins_prefix: "\<exists>ws. fold ins ss vs = vs @ ws"
proof (induction ss arbitrary: vs)
  case Nil
  then show ?case by simp
next
  case (Cons s ss)
  obtain ws where ws: "fold ins ss (ins s vs) = ins s vs @ ws"
    using Cons.IH by blast
  have "ins s vs = vs \<or> ins s vs = vs @ [s]" by (simp add: ins_def)
  then show ?case
  proof
    assume "ins s vs = vs"
    with ws show ?thesis by simp
  next
    assume "ins s vs = vs @ [s]"
    with ws show ?thesis by simp
  qed
qed

lemma fold_ins_set: "set (fold ins ss vs) = set vs \<union> set ss"
  by (induction ss arbitrary: vs) (auto simp: set_ins)

lemma fold_ins_distinct: "distinct vs \<Longrightarrow> distinct (fold ins ss vs)"
  by (induction ss arbitrary: vs) (auto simp: ins_def)

lemma first_index_fold_ins:
  "s \<in> set vs \<Longrightarrow> first_index (fold ins ss vs) s = first_index vs s"
  using fold_ins_prefix[of ss vs] by (auto simp: first_index_append_in)

lemma seq_spec_length: "length (seq_spec vs ss) = length ss"
  by (induction ss arbitrary: vs) auto

lemma seq_spec_nth:
  "i < length ss \<Longrightarrow>
   seq_spec vs ss ! i =
     (first_index (fold ins ss vs) (ss ! i), ss ! i \<notin> set vs \<union> set (take i ss))"
proof (induction ss arbitrary: vs i)
  case Nil
  then show ?case by simp
next
  case (Cons s ss)
  show ?case
  proof (cases i)
    case 0
    then show ?thesis
      by (simp add: first_index_fold_ins set_ins)
  next
    case (Suc j)
    with Cons.prems have "j < length ss" by simp
    from Cons.IH[OF this, of "ins s vs"] Suc show ?thesis
      by (simp add: set_ins)
  qed
qed

lemma first_index_image:
  "distinct xs \<Longrightarrow> first_index xs ` set xs = {0..<length xs}"
proof (intro equalityI subsetI)
  fix k assume "k \<in> first_index xs ` set xs"
  then show "k \<in> {0..<length xs}" by (auto simp: first_index_less)
next
  fix k assume d: "distinct xs" and "k \<in> {0..<length xs}"
  then have k: "k < length xs" by simp
  then have "first_index xs (xs ! k) = k" "xs ! k \<in> set xs"
    using d first_index_nth_distinct by auto
  then show "k \<in> first_index xs ` set xs" by force
qed

lemma fold_ins_length: "length (fold ins ss []) = card (set ss)"
  using fold_ins_distinct[of "[]" ss] fold_ins_set[of ss "[]"] distinct_card by fastforce

lemma seq_spec_ids: "fst ` set (seq_spec [] ss) = {0..<card (set ss)}"
proof -
  let ?F = "fold ins ss []"
  have "fst ` set (seq_spec [] ss) = first_index ?F ` set ss"
  proof (intro equalityI subsetI)
    fix k assume "k \<in> fst ` set (seq_spec [] ss)"
    then obtain i where "i < length ss" "k = fst (seq_spec [] ss ! i)"
      by (auto simp: in_set_conv_nth seq_spec_length)
    then show "k \<in> first_index ?F ` set ss"
      by (simp add: seq_spec_nth)
  next
    fix k assume "k \<in> first_index ?F ` set ss"
    then obtain i where i: "i < length ss" "k = first_index ?F (ss ! i)"
      by (auto simp: in_set_conv_nth)
    then have "k = fst (seq_spec [] ss ! i)" by (simp add: seq_spec_nth)
    moreover have "seq_spec [] ss ! i \<in> set (seq_spec [] ss)"
      using i by (simp add: seq_spec_length)
    ultimately show "k \<in> fst ` set (seq_spec [] ss)" by blast
  qed
  also have "\<dots> = first_index ?F ` set ?F" by (simp add: fold_ins_set)
  also have "\<dots> = {0..<length ?F}" by (rule first_index_image) (simp add: fold_ins_distinct)
  finally show ?thesis by (simp add: fold_ins_length)
qed

lemma first_index_first_seen:
  assumes "j < length ss" "ss ! j \<notin> set (take j ss)"
  shows "first_index (fold ins ss []) (ss ! j) = card (set (take j ss))"
proof -
  let ?P = "fold ins (take j ss) []"
  have ss: "ss = take j ss @ ss ! j # drop (Suc j) ss"
    using assms(1) by (simp add: id_take_nth_drop)
  have notin: "ss ! j \<notin> set ?P" using assms(2) by (simp add: fold_ins_set)
  have "fold ins ss [] = fold ins (drop (Suc j) ss) (ins (ss ! j) ?P)"
    by (subst ss) simp
  also have "ins (ss ! j) ?P = ?P @ [ss ! j]" using notin by (simp add: ins_def)
  finally obtain ws where "fold ins ss [] = (?P @ [ss ! j]) @ ws"
    using fold_ins_prefix by metis
  then have "first_index (fold ins ss []) (ss ! j) = length ?P"
    using notin by (simp add: first_index_append_notin)
  then show ?thesis by (simp add: fold_ins_length)
qed

text \<open>
  Claim C9. For any sequence of \<open>GetOrInsert\<close> calls on a new table: one pair is
  returned per call; the set of returned ids is \<open>{0, ..., n - 1}\<close> for the \<open>n\<close>
  distinct strings of the sequence; the inserted flag of a call is true exactly when its
  string has not occurred before; and every call on a string returns the id given at the
  first occurrence of that string, which is the number of distinct strings seen before
  that occurrence (so ids are dense in first-seen order and a duplicate consumes none).
\<close>

theorem GetOrInsert_dense_first_seen:
  "length (fst (GetOrInsert_seq TokenTable_new ss)) = length ss \<and>
   fst ` set (fst (GetOrInsert_seq TokenTable_new ss)) = {0..<card (set ss)} \<and>
   (\<forall>i<length ss.
      snd (fst (GetOrInsert_seq TokenTable_new ss) ! i) = (ss ! i \<notin> set (take i ss))) \<and>
   (\<forall>i<length ss. \<forall>j\<le>i. ss ! j = ss ! i \<and> ss ! j \<notin> set (take j ss) \<longrightarrow>
      fst (fst (GetOrInsert_seq TokenTable_new ss) ! i) = card (set (take j ss)))"
proof -
  define rs where "rs = fst (GetOrInsert_seq TokenTable_new ss)"
  have rs: "rs = seq_spec [] ss"
    using GetOrInsert_seq_spec[OF tt_inv_new, of ss]
    by (simp add: rs_def vals_def TokenTable_new_def)
  have 1: "length rs = length ss" by (simp add: rs seq_spec_length)
  have 2: "fst ` set rs = {0..<card (set ss)}" by (simp add: rs seq_spec_ids)
  have 3: "\<forall>i<length ss. snd (rs ! i) = (ss ! i \<notin> set (take i ss))"
    by (simp add: rs seq_spec_nth)
  have 4: "\<forall>i<length ss. \<forall>j\<le>i. ss ! j = ss ! i \<and> ss ! j \<notin> set (take j ss) \<longrightarrow>
           fst (rs ! i) = card (set (take j ss))"
  proof (intro allI impI)
    fix i j assume i: "i < length ss" and j: "j \<le> i"
      and h: "ss ! j = ss ! i \<and> ss ! j \<notin> set (take j ss)"
    from i j have jl: "j < length ss" by simp
    from h have "ss ! j = ss ! i" by (rule conjunct1)
    then have eq: "ss ! i = ss ! j" by (rule sym)
    from h have new: "ss ! j \<notin> set (take j ss)" by (rule conjunct2)
    have "fst (rs ! i) = first_index (fold ins ss []) (ss ! i)"
      using i by (simp add: rs seq_spec_nth)
    also have "\<dots> = first_index (fold ins ss []) (ss ! j)" by (simp only: eq)
    also have "\<dots> = card (set (take j ss))" by (rule first_index_first_seen[OF jl new])
    finally show "fst (rs ! i) = card (set (take j ss))" .
  qed
  from 1 2 3 4 show ?thesis unfolding rs_def by blast
qed

theorem GetOrInsert_dense_first_seen_witness:
  "fst (GetOrInsert_seq TokenTable_new [''foo'', ''foo'', ''bar'', ''bar'', ''baz'']) =
     [(0, True), (0, False), (1, True), (1, False), (2, True)] \<and>
   fst ` set (fst (GetOrInsert_seq TokenTable_new [''foo'', ''foo'', ''bar'', ''bar'', ''baz''])) =
     {0..<3}"
proof -
  have c: "card (set [''foo'', ''foo'', ''bar'', ''bar'', ''baz'']) = 3" by simp
  have e: "fst (GetOrInsert_seq TokenTable_new [''foo'', ''foo'', ''bar'', ''bar'', ''baz'']) =
     [(0, True), (0, False), (1, True), (1, False), (2, True)]"
    by (simp add: TokenTable_new_def GetOrInsert_def Let_def)
  from GetOrInsert_dense_first_seen[of "[''foo'', ''foo'', ''bar'', ''bar'', ''baz'']"]
  have "fst ` set (fst (GetOrInsert_seq TokenTable_new [''foo'', ''foo'', ''bar'', ''bar'', ''baz''])) =
     {0..<card (set [''foo'', ''foo'', ''bar'', ''bar'', ''baz''])}"
    by (rule conjunct2[THEN conjunct1])
  with c e show ?thesis by (simp only:)
qed

text \<open>
  Claim C6. \<open>ReverseLookup\<close> of the first id that was never issued does not return
  none: after any sequence of inserts with \<open>n\<close> distinct strings, \<open>ReverseLookup n\<close>
  passes the guard \<open>size < id\<close> and \<open>at\<close> throws \<open>std::out_of_range\<close>.
  (The two lemmas after the theorem prove the rest of the claim: an id above \<open>n\<close>
  gives none, and an id that was issued gives the string interned under it.)
\<close>

theorem ReverseLookup_first_unissued_throws:
  "ReverseLookup (snd (GetOrInsert_seq TokenTable_new ss)) (card (set ss)) = Inl OutOfRange"
proof -
  have "vals (snd (GetOrInsert_seq TokenTable_new ss)) = fold ins ss []"
    using GetOrInsert_seq_spec[OF tt_inv_new, of ss]
    by (simp add: vals_def TokenTable_new_def)
  then have "length (vals (snd (GetOrInsert_seq TokenTable_new ss))) = card (set ss)"
    using fold_ins_length[of ss] by simp
  then have "length (tt_reverse (snd (GetOrInsert_seq TokenTable_new ss))) = card (set ss)"
    by (simp add: vals_def)
  then show ?thesis by (simp add: ReverseLookup_def)
qed

lemma ReverseLookup_beyond:
  "card (set ss) < m \<Longrightarrow>
   ReverseLookup (snd (GetOrInsert_seq TokenTable_new ss)) m = Inr None"
proof -
  have "vals (snd (GetOrInsert_seq TokenTable_new ss)) = fold ins ss []"
    using GetOrInsert_seq_spec[OF tt_inv_new, of ss]
    by (simp add: vals_def TokenTable_new_def)
  then have "length (vals (snd (GetOrInsert_seq TokenTable_new ss))) = card (set ss)"
    using fold_ins_length[of ss] by simp
  then have "length (tt_reverse (snd (GetOrInsert_seq TokenTable_new ss))) = card (set ss)"
    by (simp add: vals_def)
  moreover assume "card (set ss) < m"
  ultimately show ?thesis by (simp add: ReverseLookup_def)
qed

lemma ReverseLookup_issued:
  assumes "i < length ss"
  shows "ReverseLookup (snd (GetOrInsert_seq TokenTable_new ss))
           (fst (fst (GetOrInsert_seq TokenTable_new ss) ! i)) = Inr (Some (ss ! i))"
proof -
  let ?t = "snd (GetOrInsert_seq TokenTable_new ss)"
  let ?F = "fold ins ss []"
  from GetOrInsert_seq_spec[OF tt_inv_new, of ss]
  have v: "vals ?t = ?F" and rs: "fst (GetOrInsert_seq TokenTable_new ss) = seq_spec [] ss"
    by (simp_all add: vals_def TokenTable_new_def)
  have k: "fst (fst (GetOrInsert_seq TokenTable_new ss) ! i) = first_index ?F (ss ! i)"
    using assms by (simp add: rs seq_spec_nth)
  have m: "ss ! i \<in> set ?F" using assms by (simp add: fold_ins_set)
  have f: "first_index ?F (ss ! i) < length ?F" "?F ! first_index ?F (ss ! i) = ss ! i"
    using m by (simp_all add: first_index_less first_index_nth)
  have len: "length (tt_reverse ?t) = length ?F"
    using arg_cong[OF v, of length] by (simp add: vals_def)
  have l: "first_index ?F (ss ! i) < length (tt_reverse ?t)"
    using f(1) len by simp
  have "tok_value (tt_reverse ?t ! first_index ?F (ss ! i)) = vals ?t ! first_index ?F (ss ! i)"
    using l by (simp add: vals_def)
  also have "\<dots> = ss ! i" using f(2) v by simp
  finally show ?thesis using l by (simp add: k ReverseLookup_def)
qed

section \<open>Splitting\<close>

lemma split_on_takeWhile:
  "split_on d s =
     takeWhile (\<lambda>c. c \<noteq> d) s #
       (case dropWhile (\<lambda>c. c \<noteq> d) s of [] \<Rightarrow> [] | x # r \<Rightarrow> split_on d r)"
  by (induction s) (auto split: list.splits)

lemma drop_Suc_takeWhile:
  "drop (Suc (length (takeWhile P s))) s = tl (dropWhile P s)"
  by (simp add: dropWhile_eq_drop drop_Suc tl_drop)

lemma components_getline:
  assumes "getline stream kPathSeparatorChar = Some (piece, rest)"
  shows "components stream = (if piece \<noteq> [] then [piece] else []) @ components rest"
proof -
  from assms have piece: "piece = takeWhile (\<lambda>c. c \<noteq> CHR ''/'') stream"
    and rest: "rest = tl (dropWhile (\<lambda>c. c \<noteq> CHR ''/'') stream)"
    by (auto simp: getline_def kPathSeparatorChar_def Let_def drop_Suc_takeWhile
        split: if_splits)
  have s: "split_on CHR ''/'' stream =
     piece # (case dropWhile (\<lambda>c. c \<noteq> CHR ''/'') stream of [] \<Rightarrow> [] | x # r \<Rightarrow> split_on CHR ''/'' r)"
    unfolding piece by (rule split_on_takeWhile)
  show ?thesis
  proof (cases "dropWhile (\<lambda>c. c \<noteq> CHR ''/'') stream")
    case Nil
    with s rest show ?thesis by (simp add: components_def)
  next
    case (Cons x r)
    with s rest show ?thesis by (simp add: components_def)
  qed
qed

lemma components_Nil: "getline stream kPathSeparatorChar = None \<Longrightarrow> components stream = []"
  by (simp add: getline_def components_def Let_def split: if_splits)


section \<open>Tokenize\<close>

lemma GetOrInsert_id:
  assumes "tt_inv t" "GetOrInsert t s = ((k, b), t1)"
  shows "tt_inv t1" "k < length (vals t1)" "vals t1 ! k = s" "\<exists>ws. vals t1 = vals t @ ws"
proof -
  from GetOrInsert_ins[OF assms(1), of s] assms(2)
  have 1: "tt_inv t1" "vals t1 = ins s (vals t)" "k = first_index (ins s (vals t)) s"
    by auto
  have m: "s \<in> set (ins s (vals t))" by (simp add: set_ins)
  show "tt_inv t1" by (rule 1)
  show "k < length (vals t1)" using 1 m by (simp add: first_index_less)
  show "vals t1 ! k = s" using 1 m by (simp add: first_index_nth)
  show "\<exists>ws. vals t1 = vals t @ ws" using 1 by (simp add: ins_def)
qed

lemma Tokenize_loop_spec:
  "tt_inv t \<Longrightarrow> Tokenize_loop t stream result = (ks, t') \<Longrightarrow>
     tt_inv t' \<and> (\<exists>ws. vals t' = vals t @ ws) \<and>
     (\<exists>ks'. ks = result @ ks' \<and> map (\<lambda>k. vals t' ! k) ks' = components stream \<and>
            (\<forall>k\<in>set ks'. k < length (vals t')))"
proof (induction t stream result arbitrary: ks t' rule: Tokenize_loop.induct)
  case (1 tokens stream result)
  show ?case
  proof (cases "getline stream kPathSeparatorChar")
    case None
    with "1.prems" show ?thesis
      by (simp add: components_Nil)
  next
    case (Some pr)
    obtain piece rest where pr: "pr = (piece, rest)" by (cases pr)
    note g = Some[unfolded pr]
    note cs = components_getline[OF g]
    show ?thesis
    proof (cases "piece = []")
      case True
      with "1.prems" g have "Tokenize_loop tokens rest result = (ks, t')" by simp
      moreover have "\<not> piece \<noteq> []" using True by simp
      ultimately show ?thesis
        using "1.IH"(2)[OF g refl _ "1.prems"(1), of ks t'] cs True by simp
    next
      case False
      obtain k b t1 where goi: "GetOrInsert tokens piece = ((k, b), t1)"
        by (cases "GetOrInsert tokens piece") auto
      note id = GetOrInsert_id[OF "1.prems"(1) goi]
      from "1.prems" g False goi
      have run: "Tokenize_loop t1 rest (result @ [k]) = (ks, t')" by simp
      from "1.IH"(1)[OF g refl False goi[symmetric] refl id(1) run]
      obtain ws ks' where ih: "tt_inv t'" "vals t' = vals t1 @ ws"
        "ks = (result @ [k]) @ ks'" "map (\<lambda>k. vals t' ! k) ks' = components rest"
        "\<forall>k\<in>set ks'. k < length (vals t')"
        by auto
      from id(4) obtain ws1 where ws1: "vals t1 = vals tokens @ ws1" by blast
      have kv: "vals t' ! k = piece" "k < length (vals t')"
        using ih(2) id(2,3) by (simp_all add: nth_append)
      have "ks = result @ (k # ks')" using ih(3) by simp
      moreover have "map (\<lambda>k. vals t' ! k) (k # ks') = components stream"
        using kv ih(4) cs False by simp
      moreover have "\<forall>j\<in>set (k # ks'). j < length (vals t')"
        using kv ih(5) by simp
      moreover have "\<exists>ws. vals t' = vals tokens @ ws"
        using ih(2) ws1 by simp
      ultimately show ?thesis using ih(1) by blast
    qed
  qed
qed

lemma Tokenize_spec:
  assumes "tt_inv t" "Tokenize t path = (ks, t')"
  shows "tt_inv t'" "length (tt_reverse t) \<le> length (tt_reverse t')"
    "map (\<lambda>k. vals t' ! k) ks = components path"
    "\<forall>k\<in>set ks. k < length (tt_reverse t')"
proof -
  from Tokenize_loop_spec[OF assms(1) assms(2)[unfolded Tokenize_def]]
  obtain ws where 1: "tt_inv t'" "vals t' = vals t @ ws"
    "map (\<lambda>k. vals t' ! k) ks = components path" "\<forall>k\<in>set ks. k < length (vals t')"
    by auto
  show "tt_inv t'" by (rule 1)
  show "map (\<lambda>k. vals t' ! k) ks = components path" by (rule 1)
  have "length (vals t) \<le> length (vals t')" using 1(2) by simp
  then show "length (tt_reverse t) \<le> length (tt_reverse t')" by (simp add: vals_def)
  show "\<forall>k\<in>set ks. k < length (tt_reverse t')" using 1(4) by (simp add: vals_def)
qed


section \<open>The trie\<close>

lemma Path_loop_chain: "chain h a ks \<Longrightarrow> Path_loop h a acc = Some (rev ks @ acc)"
proof (induction ks arbitrary: a acc)
  case Nil
  then show ?case by (subst Path_loop.simps) simp
next
  case (Cons k ks)
  then obtain p where p: "node_parent (h ! a) = Some p" "node_name (h ! a) = k" "chain h p ks"
    by (auto split: option.splits)
  from Cons.IH[OF p(3), of "k # acc"] p show ?case
    by (subst Path_loop.simps) simp
qed

lemma hinv_mono: "hinv h N \<Longrightarrow> N \<le> N' \<Longrightarrow> hinv h N'"
  unfolding hinv_def by (meson less_le_trans)

lemma ext_refl: "ext h h"
  by (simp add: ext_def)

lemma ext_trans: "ext h h1 \<Longrightarrow> ext h1 h2 \<Longrightarrow> ext h h2"
  unfolding ext_def by (metis (no_types, lifting) le_trans less_le_trans)

lemma chain_ext:
  "hinv h N \<Longrightarrow> ext h h' \<Longrightarrow> a < length h \<Longrightarrow> chain h a ks \<Longrightarrow> chain h' a ks"
proof (induction ks arbitrary: a)
  case Nil
  then show ?case by (simp add: ext_def)
next
  case (Cons k ks)
  then obtain p where p: "node_parent (h ! a) = Some p" "node_name (h ! a) = k" "chain h p ks"
    by (auto split: option.splits)
  with Cons.prems have "p < a" by (simp add: hinv_def)
  with Cons.prems have pl: "p < length h" by simp
  from Cons.IH[OF Cons.prems(1,2) pl p(3)] have "chain h' p ks" .
  moreover from Cons.prems p have "node_parent (h' ! a) = Some p" "node_name (h' ! a) = k"
    by (simp_all add: ext_def)
  ultimately show ?case by simp
qed

lemma Get_old:
  assumes "hinv h N" "a < length h" "node_children (h ! a) w = Some c"
  shows "MonikerNode_Get h a w = (c, h)" "c < length h"
    "node_parent (h ! c) = Some a" "node_name (h ! c) = w"
  using assms by (auto simp: MonikerNode_Get_def hinv_def)

lemma Get_new:
  assumes inv: "hinv h N" and a: "a < length h" and w: "w < N"
    and none: "node_children (h ! a) w = None"
  defines "h' \<equiv> snd (MonikerNode_Get h a w)"
  shows "fst (MonikerNode_Get h a w) = length h"
    and "length h' = Suc (length h)"
    and "node_parent (h' ! length h) = Some a"
    and "node_name (h' ! length h) = w"
    and "ext h h'"
    and "hinv h' N"
proof -
  let ?n = "(h ! a)\<lparr>node_children := (node_children (h ! a))(w \<mapsto> length h)\<rparr>"
  have h': "h' = h[a := ?n] @ [MonikerNode_new w (Some a)]"
    using none by (simp add: h'_def MonikerNode_Get_def Let_def)
  show "fst (MonikerNode_Get h a w) = length h"
    using none by (simp add: MonikerNode_Get_def Let_def)
  show len: "length h' = Suc (length h)" by (simp add: h')
  show new_p: "node_parent (h' ! length h) = Some a"
    by (simp add: h' nth_append MonikerNode_new_def)
  show new_n: "node_name (h' ! length h) = w"
    by (simp add: h' nth_append MonikerNode_new_def)
  have old: "node_parent (h' ! b) = node_parent (h ! b) \<and> node_name (h' ! b) = node_name (h ! b)"
    if "b < length h" for b
    using that by (cases "b = a") (simp_all add: h' nth_append)
  show "ext h h'" using old by (simp add: ext_def len)
  have ch_a: "node_children (h' ! a) = (node_children (h ! a))(w \<mapsto> length h)"
    using a by (simp add: h' nth_append)
  have ch_b: "node_children (h' ! b) = node_children (h ! b)" if "b < length h" "b \<noteq> a" for b
    using that by (simp add: h' nth_append)
  have ch_new: "node_children (h' ! length h) = Map.empty"
    by (simp add: h' nth_append MonikerNode_new_def)
  show "hinv h' N"
    unfolding hinv_def
  proof (intro conjI allI impI)
    show "h' \<noteq> []" by (simp add: h')
    show "node_parent (h' ! 0) = None"
      using inv old[of 0] by (simp add: hinv_def)
  next
    fix b v c assume b: "b < length h'" and c: "node_children (h' ! b) v = Some c"
    have "c < length h' \<and> node_parent (h' ! c) = Some b \<and> node_name (h' ! c) = v"
    proof (cases "b = length h")
      case True
      with c ch_new show ?thesis by simp
    next
      case False
      with b len have bl: "b < length h" by simp
      show ?thesis
      proof (cases "b = a \<and> v = w")
        case True
        with c ch_a have "c = length h" by simp
        with True new_p new_n len show ?thesis by simp
      next
        case False
        with c ch_a ch_b[OF bl] have "node_children (h ! b) v = Some c"
          by (cases "b = a") (auto split: if_splits)
        with inv bl have "c < length h" "node_parent (h ! c) = Some b" "node_name (h ! c) = v"
          by (auto simp: hinv_def)
        with old[of c] len show ?thesis by simp
      qed
    qed
    then show "c < length h'" "node_parent (h' ! c) = Some b" "node_name (h' ! c) = v"
      by simp_all
  next
    fix b p assume b: "b < length h'" and p: "node_parent (h' ! b) = Some p"
    have "p < b \<and> node_name (h' ! b) < N"
    proof (cases "b = length h")
      case True
      with p new_p new_n a w show ?thesis by simp
    next
      case False
      with b len have bl: "b < length h" by simp
      with p old[OF bl] inv show ?thesis by (auto simp: hinv_def)
    qed
    then show "p < b" "node_name (h' ! b) < N" by simp_all
  qed
qed

lemma Get_props:
  assumes "hinv h N" "a < length h" "w < N" "MonikerNode_Get h a w = (c, h')"
  shows "hinv h' N \<and> ext h h' \<and> c < length h' \<and>
         node_parent (h' ! c) = Some a \<and> node_name (h' ! c) = w"
proof (cases "node_children (h ! a) w")
  case None
  from Get_new[OF assms(1-3) None] assms(4) show ?thesis by simp
next
  case (Some d)
  from Get_old[OF assms(1,2) Some] assms(4) assms(1) show ?thesis
    by (simp add: ext_refl)
qed

lemma descend_props:
  "hinv h N \<Longrightarrow> a < length h \<Longrightarrow> \<forall>w\<in>set ws. w < N \<Longrightarrow> chain h a ks0 \<Longrightarrow>
   descend h a ws = (c, h') \<Longrightarrow>
   hinv h' N \<and> c < length h' \<and> chain h' c (rev ws @ ks0) \<and> ext h h'"
proof (induction ws arbitrary: h a ks0)
  case Nil
  then show ?case by (simp add: ext_refl)
next
  case (Cons w ws)
  obtain c1 h1 where g: "MonikerNode_Get h a w = (c1, h1)"
    by (cases "MonikerNode_Get h a w")
  from Cons.prems have w: "w < N" and ws: "\<forall>w\<in>set ws. w < N" by simp_all
  from Get_props[OF Cons.prems(1,2) w g]
  have 1: "hinv h1 N" "ext h h1" "c1 < length h1" "node_parent (h1 ! c1) = Some a"
    "node_name (h1 ! c1) = w" by simp_all
  have "chain h1 a ks0" by (rule chain_ext[OF Cons.prems(1) 1(2) Cons.prems(2,4)])
  with 1 have ch: "chain h1 c1 (w # ks0)" by simp
  from Cons.prems(5) g have d: "descend h1 c1 ws = (c, h')" by simp
  from Cons.IH[OF 1(1) 1(3) ws ch d] 1(2) show ?case
    by (auto intro: ext_trans)
qed

section \<open>Get\<close>

lemma Get_loop_join:
  "\<forall>k\<in>set ks. k < length (tt_reverse t) \<Longrightarrow>
   Get_loop t ks acc = Inr (Some (acc @ join_with CHR ''/'' (map (\<lambda>k. vals t ! k) ks)))"
proof (induction ks arbitrary: acc)
  case Nil
  then show ?case by simp
next
  case (Cons k ks)
  then have r: "ReverseLookup t k = Inr (Some (vals t ! k))"
    by (simp add: ReverseLookup_def vals_def)
  show ?case
  proof (cases ks)
    case Nil
    with r show ?thesis by simp
  next
    case (Cons k' ks')
    with Cons.IH[of "acc @ vals t ! k @ ''/''"] Cons.prems r show ?thesis by simp
  qed
qed



section \<open>Insert, then Get\<close>

lemma Insert_minv:
  assumes "minv m"
  shows "minv (snd (MonikerTable_Insert m i p))"
proof -
  obtain ks tt where tk: "Tokenize (mt_tokens m) p = (ks, tt)"
    by (cases "Tokenize (mt_tokens m) p")
  obtain c h where d: "descend (mt_nodes m) 0 ks = (c, h)"
    by (cases "descend (mt_nodes m) 0 ks")
  from assms have ti: "tt_inv (mt_tokens m)"
    and hi: "hinv (mt_nodes m) (length (tt_reverse (mt_tokens m)))"
    by (simp_all add: minv_def)
  note T = Tokenize_spec[OF ti tk]
  have hi': "hinv (mt_nodes m) (length (tt_reverse tt))" by (rule hinv_mono[OF hi T(2)])
  then have r: "0 < length (mt_nodes m)" "chain (mt_nodes m) 0 []" by (simp_all add: hinv_def)
  from descend_props[OF hi' r(1) T(4) r(2) d] have "hinv h (length (tt_reverse tt))" by simp
  with T(1) tk d show ?thesis
    by (simp add: MonikerTable_Insert_def minv_def Let_def)
qed

lemma Insert_Get:
  assumes "minv m" "mt_id_to_terminal m i = None"
  shows "MonikerTable_Get (snd (MonikerTable_Insert m i p)) i off fq =
         Some (Inr (Some (join_with CHR ''/'' (components p))))"
proof -
  obtain ks tt where tk: "Tokenize (mt_tokens m) p = (ks, tt)"
    by (cases "Tokenize (mt_tokens m) p")
  obtain c h where d: "descend (mt_nodes m) 0 ks = (c, h)"
    by (cases "descend (mt_nodes m) 0 ks")
  from assms have ti: "tt_inv (mt_tokens m)"
    and hi: "hinv (mt_nodes m) (length (tt_reverse (mt_tokens m)))"
    by (simp_all add: minv_def)
  note T = Tokenize_spec[OF ti tk]
  have hi': "hinv (mt_nodes m) (length (tt_reverse tt))" by (rule hinv_mono[OF hi T(2)])
  then have r: "0 < length (mt_nodes m)" "chain (mt_nodes m) 0 []" by (simp_all add: hinv_def)
  from descend_props[OF hi' r(1) T(4) r(2) d] have "chain h c (rev ks @ [])" by simp
  from Path_loop_chain[OF this, of "[]"] have path: "MonikerNode_Path h c = Some ks"
    by (simp add: MonikerNode_Path_def)
  have m': "snd (MonikerTable_Insert m i p) =
      m\<lparr>mt_nodes := h, mt_tokens := tt, mt_id_to_terminal := (mt_id_to_terminal m)(i \<mapsto> c)\<rparr>"
    using tk d assms(2) by (simp add: MonikerTable_Insert_def Let_def)
  have "Get_loop tt ks [] = Inr (Some (join_with CHR ''/'' (components p)))"
    using Get_loop_join[OF T(4), of "[]"] T(3) by simp
  with path show ?thesis
    by (simp add: m' MonikerTable_Get_def)
qed

lemma hinv_single:
  assumes "node_parent n = None" "node_children n = Map.empty"
  shows "hinv [n] N"
  unfolding hinv_def
proof (intro conjI allI impI)
  show "[n] \<noteq> []" by simp
  show "node_parent ([n] ! 0) = None" using assms by simp
next
  fix a w c assume "a < length [n]" "node_children ([n] ! a) w = Some c"
  then have False using assms by simp
  then show "c < length [n]" "node_parent ([n] ! c) = Some a" "node_name ([n] ! c) = w"
    by simp_all
next
  fix a p assume "a < length [n]" "node_parent ([n] ! a) = Some p"
  then have False using assms by simp
  then show "p < a" "node_name ([n] ! a) < N" by simp_all
qed

lemma minv_blank:
  "minv \<lparr>mt_nodes = [MonikerNode_new 0 None], mt_id_to_terminal = Map.empty,
         mt_tokens = TokenTable_new, mt_root_node_id = r\<rparr>"
  by (simp add: minv_def tt_inv_new hinv_single MonikerNode_new_def)

lemma minv_new: "minv (MonikerTable_new r)"
  unfolding MonikerTable_new_def by (rule Insert_minv[OF minv_blank])

lemma Clear_minv:
  assumes "minv m"
  shows "minv (MonikerTable_Clear m)"
proof -
  from assms have "node_parent (mt_nodes m ! 0) = None" by (simp add: minv_def hinv_def)
  then have "hinv [(mt_nodes m ! 0)\<lparr>node_children := Map.empty\<rparr>]
               (length (tt_reverse (mt_tokens m)))"
    by (intro hinv_single) simp_all
  with assms show ?thesis by (simp add: minv_def MonikerTable_Clear_def)
qed

lemma reachable_minv: "reachable m \<Longrightarrow> minv m"
  by (induction rule: reachable.induct) (simp_all add: minv_new Insert_minv Clear_minv)

lemma components_root: "components ''<root>'' = [''<root>'']"
  by (simp add: components_def)

lemma Get_new_root:
  "MonikerTable_Get (MonikerTable_new r) r off fq = Some (Inr (Some ''<root>''))"
  unfolding MonikerTable_new_def
  using Insert_Get[OF minv_blank, of r r "''<root>''" off fq]
  by (simp add: components_root)

lemma terminal_new:
  "\<exists>c. mt_id_to_terminal (MonikerTable_new r) = [r \<mapsto> c]"
  by (auto simp: MonikerTable_new_def MonikerTable_Insert_def Let_def split: prod.splits)


lemma Get_new_other:
  "i \<noteq> r \<Longrightarrow> MonikerTable_Get (MonikerTable_new r) i off fq = Some (Inr None)"
  using terminal_new[of r] by (auto simp: MonikerTable_Get_def)

subsection \<open>Entries stay as they are under later inserts\<close>

lemma node_chain:
  "hinv h N \<Longrightarrow> a < length h \<Longrightarrow> \<exists>ks. chain h a ks \<and> (\<forall>k\<in>set ks. k < N)"
proof (induction a rule: less_induct)
  case (less a)
  show ?case
  proof (cases "node_parent (h ! a)")
    case None
    then have "chain h a []" by simp
    then show ?thesis by fastforce
  next
    case (Some p)
    with less.prems have p: "p < a" "node_name (h ! a) < N" by (auto simp: hinv_def)
    with less.prems have "p < length h" by simp
    from less.IH[OF p(1) less.prems(1) this]
    obtain ks where ks: "chain h p ks" "\<forall>k\<in>set ks. k < N" by blast
    with Some p have "chain h a (node_name (h ! a) # ks)"
      "\<forall>k\<in>set (node_name (h ! a) # ks). k < N" by simp_all
    then show ?thesis by blast
  qed
qed

lemma Tokenize_prefix:
  assumes "tt_inv t" "Tokenize t path = (ks, t')"
  shows "\<exists>ws. vals t' = vals t @ ws"
  using Tokenize_loop_spec[OF assms(1) assms(2)[unfolded Tokenize_def]] by blast

lemma Insert_parts:
  assumes "minv m"
  obtains ks tt c h where
    "Tokenize (mt_tokens m) p = (ks, tt)" "descend (mt_nodes m) 0 ks = (c, h)"
    "snd (MonikerTable_Insert m i p) =
       m\<lparr>mt_nodes := h, mt_tokens := tt,
         mt_id_to_terminal := (if mt_id_to_terminal m i = None
            then (mt_id_to_terminal m)(i \<mapsto> c) else mt_id_to_terminal m)\<rparr>"
    "ext (mt_nodes m) h" "c < length h"
    "length (tt_reverse (mt_tokens m)) \<le> length (tt_reverse tt)"
    "\<exists>ws. vals tt = vals (mt_tokens m) @ ws"
proof -
  obtain ks tt where tk: "Tokenize (mt_tokens m) p = (ks, tt)"
    by (cases "Tokenize (mt_tokens m) p")
  obtain c h where d: "descend (mt_nodes m) 0 ks = (c, h)"
    by (cases "descend (mt_nodes m) 0 ks")
  from assms have ti: "tt_inv (mt_tokens m)"
    and hi: "hinv (mt_nodes m) (length (tt_reverse (mt_tokens m)))"
    by (simp_all add: minv_def)
  note T = Tokenize_spec[OF ti tk]
  have hi': "hinv (mt_nodes m) (length (tt_reverse tt))" by (rule hinv_mono[OF hi T(2)])
  then have r: "0 < length (mt_nodes m)" "chain (mt_nodes m) 0 []" by (simp_all add: hinv_def)
  from descend_props[OF hi' r(1) T(4) r(2) d] have e: "ext (mt_nodes m) h" "c < length h"
    by simp_all
  have m': "snd (MonikerTable_Insert m i p) =
       m\<lparr>mt_nodes := h, mt_tokens := tt,
         mt_id_to_terminal := (if mt_id_to_terminal m i = None
            then (mt_id_to_terminal m)(i \<mapsto> c) else mt_id_to_terminal m)\<rparr>"
    using tk d by (simp add: MonikerTable_Insert_def Let_def)
  show ?thesis
    by (rule that[OF tk d m' e T(2) Tokenize_prefix[OF ti tk]])
qed

lemma Insert_tinv:
  assumes "minv m" "tinv m"
  shows "tinv (snd (MonikerTable_Insert m i p))"
proof -
  from Insert_parts[OF assms(1), of p i]
  obtain ks tt c h where P:
    "snd (MonikerTable_Insert m i p) =
       m\<lparr>mt_nodes := h, mt_tokens := tt,
         mt_id_to_terminal := (if mt_id_to_terminal m i = None
            then (mt_id_to_terminal m)(i \<mapsto> c) else mt_id_to_terminal m)\<rparr>"
    "ext (mt_nodes m) h" "c < length h"
    by metis
  from P(2) have le: "length (mt_nodes m) \<le> length h" by (simp add: ext_def)
  show ?thesis
    unfolding tinv_def P(1)
  proof (intro allI impI)
    fix j a
    assume "mt_id_to_terminal (m\<lparr>mt_nodes := h, mt_tokens := tt,
         mt_id_to_terminal := (if mt_id_to_terminal m i = None
            then (mt_id_to_terminal m)(i \<mapsto> c) else mt_id_to_terminal m)\<rparr>) j = Some a"
    then have "a = c \<or> mt_id_to_terminal m j = Some a" by (auto split: if_splits)
    then have "a < length h"
      using P(3) assms(2) le unfolding tinv_def by (metis less_le_trans)
    then show "a < length (mt_nodes (m\<lparr>mt_nodes := h, mt_tokens := tt,
         mt_id_to_terminal := (if mt_id_to_terminal m i = None
            then (mt_id_to_terminal m)(i \<mapsto> c) else mt_id_to_terminal m)\<rparr>))" by simp
  qed
qed

lemma Get_stable:
  assumes "minv m" "tinv m" "mt_id_to_terminal m i = Some a"
  shows "MonikerTable_Get (snd (MonikerTable_Insert m j q)) i off fq = MonikerTable_Get m i off fq"
proof -
  from assms(1) have ti: "tt_inv (mt_tokens m)"
    and hi: "hinv (mt_nodes m) (length (tt_reverse (mt_tokens m)))"
    by (simp_all add: minv_def)
  from assms(2,3) have al: "a < length (mt_nodes m)" by (simp add: tinv_def)
  from node_chain[OF hi al] obtain ks where ks: "chain (mt_nodes m) a ks"
    "\<forall>k\<in>set ks. k < length (tt_reverse (mt_tokens m))" by blast
  from Insert_parts[OF assms(1), of q j]
  obtain ts tt c h where P:
    "snd (MonikerTable_Insert m j q) =
       m\<lparr>mt_nodes := h, mt_tokens := tt,
         mt_id_to_terminal := (if mt_id_to_terminal m j = None
            then (mt_id_to_terminal m)(j \<mapsto> c) else mt_id_to_terminal m)\<rparr>"
    "ext (mt_nodes m) h"
    "length (tt_reverse (mt_tokens m)) \<le> length (tt_reverse tt)"
    "\<exists>ws. vals tt = vals (mt_tokens m) @ ws"
    by metis
  have tm: "mt_id_to_terminal (snd (MonikerTable_Insert m j q)) i = Some a"
    using assms(3) by (auto simp: P(1))
  have ch: "chain h a ks" by (rule chain_ext[OF hi P(2) al ks(1)])
  have p_old: "MonikerNode_Path (mt_nodes m) a = Some (rev ks)"
    using Path_loop_chain[OF ks(1), of "[]"] by (simp add: MonikerNode_Path_def)
  have p_new: "MonikerNode_Path h a = Some (rev ks)"
    using Path_loop_chain[OF ch, of "[]"] by (simp add: MonikerNode_Path_def)
  have b_old: "\<forall>k\<in>set (rev ks). k < length (tt_reverse (mt_tokens m))" using ks(2) by simp
  have b_new: "\<forall>k\<in>set (rev ks). k < length (tt_reverse tt)" using ks(2) P(3) by auto
  from P(4) obtain ws where ws: "vals tt = vals (mt_tokens m) @ ws" by blast
  have "vals tt ! k = vals (mt_tokens m) ! k" if "k \<in> set ks" for k
  proof -
    from that ks(2) have "k < length (vals (mt_tokens m))" by (simp add: vals_def)
    then show ?thesis by (simp add: ws nth_append)
  qed
  then have same: "map (\<lambda>k. vals tt ! k) (rev ks) = map (\<lambda>k. vals (mt_tokens m) ! k) (rev ks)"
    by simp
  have "MonikerTable_Get (snd (MonikerTable_Insert m j q)) i off fq =
      Some (Get_loop tt (rev ks) [])"
    using tm p_new by (simp add: MonikerTable_Get_def P(1))
  also have "\<dots> = Some (Get_loop (mt_tokens m) (rev ks) [])"
    by (simp add: Get_loop_join[OF b_new] Get_loop_join[OF b_old] same)
  also have "\<dots> = MonikerTable_Get m i off fq"
    using assms(3) p_old by (simp add: MonikerTable_Get_def)
  finally show ?thesis .
qed

lemma tinv_new: "tinv (MonikerTable_new r)"
  unfolding MonikerTable_new_def
  by (rule Insert_tinv[OF minv_blank]) (simp add: tinv_def)


lemma Get_stable_all:
  "minv m \<Longrightarrow> tinv m \<Longrightarrow> mt_id_to_terminal m i = Some a \<Longrightarrow>
   MonikerTable_Get (Insert_all m xs) i off fq = MonikerTable_Get m i off fq"
proof (induction m xs arbitrary: a rule: Insert_all.induct)
  case (1 m)
  then show ?case by simp
next
  case (2 m j p xs)
  from Insert_parts[OF "2.prems"(1), of p j]
  obtain ks tt c h where P:
    "snd (MonikerTable_Insert m j p) =
       m\<lparr>mt_nodes := h, mt_tokens := tt,
         mt_id_to_terminal := (if mt_id_to_terminal m j = None
            then (mt_id_to_terminal m)(j \<mapsto> c) else mt_id_to_terminal m)\<rparr>"
    by metis
  have tm: "mt_id_to_terminal (snd (MonikerTable_Insert m j p)) i = Some a"
    using "2.prems"(3) by (auto simp: P)
  from "2.IH"[OF Insert_minv[OF "2.prems"(1)] Insert_tinv[OF "2.prems"(1,2)] tm]
    Get_stable[OF "2.prems"]
  show ?case by simp
qed


lemma Insert_terminal_other:
  assumes "minv m" "i \<noteq> j"
  shows "mt_id_to_terminal (snd (MonikerTable_Insert m j p)) i = mt_id_to_terminal m i"
proof -
  from Insert_parts[OF assms(1), of p j]
  obtain ks tt c h where P:
    "snd (MonikerTable_Insert m j p) =
       m\<lparr>mt_nodes := h, mt_tokens := tt,
         mt_id_to_terminal := (if mt_id_to_terminal m j = None
            then (mt_id_to_terminal m)(j \<mapsto> c) else mt_id_to_terminal m)\<rparr>"
    by metis
  show ?thesis using assms(2) by (simp add: P)
qed

lemma Insert_terminal_self:
  assumes "minv m"
  shows "mt_id_to_terminal (snd (MonikerTable_Insert m i p)) i \<noteq> None"
proof -
  from Insert_parts[OF assms(1), of p i]
  obtain ks tt c h where P:
    "snd (MonikerTable_Insert m i p) =
       m\<lparr>mt_nodes := h, mt_tokens := tt,
         mt_id_to_terminal := (if mt_id_to_terminal m i = None
            then (mt_id_to_terminal m)(i \<mapsto> c) else mt_id_to_terminal m)\<rparr>"
    by metis
  show ?thesis by (simp add: P)
qed

lemma Get_Insert_all:
  "minv m \<Longrightarrow> tinv m \<Longrightarrow> distinct (map fst xs) \<Longrightarrow>
   \<forall>x\<in>set xs. mt_id_to_terminal m (fst x) = None \<Longrightarrow> (i, p) \<in> set xs \<Longrightarrow>
   MonikerTable_Get (Insert_all m xs) i off fq =
     Some (Inr (Some (join_with CHR ''/'' (components p))))"
proof (induction m xs rule: Insert_all.induct)
  case (1 m)
  then show ?case by simp
next
  case (2 m j q xs)
  let ?m = "snd (MonikerTable_Insert m j q)"
  have inv: "minv ?m" "tinv ?m"
    using "2.prems"(1,2) by (simp_all add: Insert_minv Insert_tinv)
  show ?case
  proof (cases "(i, p) = (j, q)")
    case True
    from "2.prems"(4) have "mt_id_to_terminal m j = None" by simp
    from Insert_Get[OF "2.prems"(1) this, of q off fq]
    have g: "MonikerTable_Get ?m j off fq = Some (Inr (Some (join_with CHR ''/'' (components q))))" .
    from Insert_terminal_self[OF "2.prems"(1), of j q]
    obtain a where "mt_id_to_terminal ?m j = Some a" by blast
    from Get_stable_all[OF inv this, of xs off fq] g True show ?thesis by simp
  next
    case False
    with "2.prems"(5) have mem: "(i, p) \<in> set xs" by auto
    from "2.prems"(3) have d: "distinct (map fst xs)" and jn: "j \<notin> fst ` set xs" by simp_all
    have "\<forall>x\<in>set xs. mt_id_to_terminal ?m (fst x) = None"
    proof
      fix x assume x: "x \<in> set xs"
      with jn have "fst x \<noteq> j" by auto
      from Insert_terminal_other[OF "2.prems"(1) this, of q] "2.prems"(4) x
      show "mt_id_to_terminal ?m (fst x) = None" by simp
    qed
    from "2.IH"[OF inv d this mem] show ?thesis by simp
  qed
qed


lemma split_on_no_separator: "d \<notin> set s \<Longrightarrow> split_on d s = [s]"
  by (induction s) auto

lemma components_single: "CHR ''/'' \<notin> set s \<Longrightarrow> s \<noteq> [] \<Longrightarrow> components s = [s]"
  by (simp add: components_def split_on_no_separator)


text \<open>
  Claim C2. For every table a program can build, every inode \<open>i\<close> that is not in the
  terminal index and every path string \<open>p\<close>: after \<open>Insert(i, p)\<close>, \<open>Get(i)\<close>
  returns the non-empty components of \<open>p\<close> (split on the separator) joined by the
  separator, with no leading separator.
\<close>

theorem Insert_then_Get:
  "reachable m \<Longrightarrow> mt_id_to_terminal m i = None \<Longrightarrow>
   MonikerTable_Get (snd (MonikerTable_Insert m i p)) i off fq =
     Some (Inr (Some (join_with kPathSeparatorChar (components p))))"
  unfolding kPathSeparatorChar_def
  by (rule Insert_Get[OF reachable_minv])

theorem Insert_then_Get_witness:
  "MonikerTable_Get (snd (MonikerTable_Insert (MonikerTable_new 1) 2 ''/a//b0/'')) 2 0 True =
     Some (Inr (Some ''a/b0''))"
proof -
  obtain c where "mt_id_to_terminal (MonikerTable_new 1) = [1 \<mapsto> c]"
    using terminal_new[of 1] by blast
  then have t: "mt_id_to_terminal (MonikerTable_new 1) 2 = None"
    by simp
  have c: "join_with kPathSeparatorChar (components ''/a//b0/'') = ''a/b0''"
    by (simp add: components_def kPathSeparatorChar_def)
  have "MonikerTable_Get (snd (MonikerTable_Insert (MonikerTable_new 1) 2 ''/a//b0/'')) 2 0 True =
     Some (Inr (Some (join_with kPathSeparatorChar (components ''/a//b0/''))))"
    by (rule Insert_then_Get[OF reachable_new t])
  then show ?thesis by (simp only: c)
qed

section \<open>Tablets\<close>

lemma swap_loop_fresh:
  "swap_loop ts (replicate (length ts) Tablet_new) = (replicate (length ts) Tablet_new, ts)"
  by (induction ts) (simp_all add: Tablet_Swap_def Tablet_new_def)

lemma merge_loop_data:
  "tab_data (merge_loop into sws) = tab_data into \<union> (\<Union>t\<in>set sws. tab_data t)"
  by (induction sws arbitrary: into) (auto simp: hash_set_merge_def)

text \<open>
  Claim C3. For every tablet store, one sweep into an empty aggregated tablet leaves the
  aggregated tablet equal to the union of the inode sets of the allocated tablets, and
  leaves every tablet of the store empty.
\<close>

theorem Sweep_union_and_drain:
  "tab_data (snd (Sweep ts Tablet_new)) = (\<Union>t\<in>set (tablets ts). tab_data t) \<and>
   tablets (fst (Sweep ts Tablet_new)) = replicate (length (tablets ts)) Tablet_new \<and>
   tab_data Tablet_new = {}"
proof -
  have "Sweep ts Tablet_new =
      (ts\<lparr>tablets := replicate (length (tablets ts)) Tablet_new\<rparr>,
       merge_loop Tablet_new (tablets ts))"
    by (simp add: Sweep_def Let_def swap_loop_fresh)
  moreover have "tab_data Tablet_new = {}" by (simp add: Tablet_new_def)
  ultimately show ?thesis by (simp add: merge_loop_data)
qed

lemma Sweep_example:
  "tab_data (snd (Sweep \<lparr>tablets = [\<lparr>tab_data = {1, 2}\<rparr>, \<lparr>tab_data = {2, 3}\<rparr>]\<rparr> Tablet_new)) = {1, 2, 3}"
  by (auto simp: Sweep_def Let_def Tablet_Swap_def Tablet_new_def hash_set_merge_def)

section \<open>Tracer\<close>

lemma Tablets_At_length: "index < length (tablets (Tablets_At ts index))"
  by (simp add: Tablets_At_def)

lemma AddInode_member:
  "inode \<in> tab_data (tablets (tablet_store (AddInode ctx inode st)) ! logical_thread_id st)"
  using Tablets_At_length[of "logical_thread_id st" "tablet_store st"]
  by (simp add: AddInode_def Let_def Tablet_Insert_def)

lemma AddInode_stack: "attribution_stack (AddInode ctx inode st) = attribution_stack st"
  by (simp add: AddInode_def Let_def)

lemma AddInode_tid: "logical_thread_id (AddInode ctx inode st) = logical_thread_id st"
  by (simp add: AddInode_def Let_def)

text \<open>
  Claim C4, which the code does not meet. The constructor of a frame with an inode calls
  \<open>AddInode\<close> without reading the enabled flag: on a disabled context it pushes the
  nesting level and inserts the inode into the tablet of the current thread all the same.
  (\<open>Context::Add\<close> does test the flag before the same call.)
\<close>

theorem frame_with_inode_inserts_when_disabled:
  "inode \<in> tab_data (tablets (tablet_store
      (AttributionFrame_new_inode (ctx\<lparr>ctx_enabled := False\<rparr>) attribution inode st))
        ! logical_thread_id st) \<and>
   attribution_stack (AttributionFrame_new_inode (ctx\<lparr>ctx_enabled := False\<rparr>) attribution inode st) =
     \<lparr>frame_context = ctx\<lparr>ctx_enabled := False\<rparr>\<rparr> # attribution_stack st"
  using AddInode_member[of inode "ctx\<lparr>ctx_enabled := False\<rparr>"
      "AttributionFrame_new (ctx\<lparr>ctx_enabled := False\<rparr>) attribution st"]
  by (simp add: AttributionFrame_new_inode_def AddInode_stack)
     (simp add: AttributionFrame_new_def)

lemma Context_Add_disabled:
  "ctx_has_parent ctx \<Longrightarrow> \<not> ctx_enabled ctx \<Longrightarrow> Context_Add ctx src_id st = Returned st"
  by (simp add: Context_Add_def)

lemma frame_disabled_example:
  "tablet_store (AttributionFrame_new_inode \<lparr>ctx_enabled = False, ctx_has_parent = True\<rparr>
      GetattrUseAttribution 42
      \<lparr>tablet_store = Tablets_new, attribution_stack = [], logical_thread_id = 0\<rparr>) =
   \<lparr>tablets = [\<lparr>tab_data = {42}\<rparr>]\<rparr>"
  by (simp add: AttributionFrame_new_inode_def AttributionFrame_new_def AddInode_def Let_def
      Tablets_At_def Tablets_new_def Tablet_Insert_def Tablet_new_def)

text \<open>
  Claim C1 as stated fails at \<open>read\<close>: entering the handler builds no frame and
  records no inode. (The same holds for \<open>write_buf\<close> and \<open>release\<close>, whose frame
  statements are commented out.)
\<close>

theorem read_handler_builds_no_frame:
  "sfs_enter op_read \<lparr>ctx_enabled = True, ctx_has_parent = True\<rparr> 42
     \<lparr>tablet_store = Tablets_new, attribution_stack = [], logical_thread_id = 0\<rparr> =
   \<lparr>tablet_store = Tablets_new, attribution_stack = [], logical_thread_id = 0\<rparr>"
  by (simp add: sfs_enter_def)

lemma write_buf_release_build_no_frame:
  "sfs_enter op_write_buf ctx inode st = st \<and> sfs_enter op_release ctx inode st = st"
  by (simp add: sfs_enter_def)

text \<open>
  Claim C1, amended. Every registered handler other than \<open>init\<close>, \<open>destroy\<close>,
  \<open>read\<close>, \<open>write_buf\<close> and \<open>release\<close> builds on entry a frame with the operation
  tag of its own name and pushes it on the stack of the thread; every one of them other
  than \<open>unlink\<close>, \<open>forget\<close> and \<open>forget_multi\<close> builds it with its inode
  argument, which is then in the tablet of the current thread.
\<close>

theorem handlers_frame_amended:
  "op \<notin> {op_init, op_destroy, op_read, op_write_buf, op_release} \<Longrightarrow>
   (\<exists>a. tag_of op = Some a \<and> (handler_frame op = Frame a \<or> handler_frame op = FrameInode a)) \<and>
   attribution_stack (sfs_enter op ctx inode st) = \<lparr>frame_context = ctx\<rparr> # attribution_stack st \<and>
   (op \<notin> {op_unlink, op_forget, op_forget_multi} \<longrightarrow>
      inode \<in> tab_data (tablets (tablet_store (sfs_enter op ctx inode st)) ! logical_thread_id st))"
proof -
  have m: "inode \<in> tab_data (tablets (tablet_store (AttributionFrame_new_inode ctx a inode st))
             ! logical_thread_id st)" for a
    using AddInode_member[of inode ctx "AttributionFrame_new ctx a st"]
    by (simp add: AttributionFrame_new_inode_def AttributionFrame_new_def)
  have s: "attribution_stack (AttributionFrame_new_inode ctx a inode st) =
      \<lparr>frame_context = ctx\<rparr> # attribution_stack st" for a
    by (simp add: AttributionFrame_new_inode_def AddInode_stack AttributionFrame_new_def)
  have s': "attribution_stack (AttributionFrame_new ctx a st) =
      \<lparr>frame_context = ctx\<rparr> # attribution_stack st" for a
    by (simp add: AttributionFrame_new_def)
  assume "op \<notin> {op_init, op_destroy, op_read, op_write_buf, op_release}"
  then show ?thesis
    by (cases op) (simp_all add: sfs_enter_def m s s')
qed


theorem handlers_frame_amended_witness:
  "handler_frame op_getattr = FrameInode GetattrUseAttribution \<and>
   attribution_stack (sfs_enter op_getattr \<lparr>ctx_enabled = True, ctx_has_parent = True\<rparr> 42
     \<lparr>tablet_store = Tablets_new, attribution_stack = [], logical_thread_id = 0\<rparr>) =
     [\<lparr>frame_context = \<lparr>ctx_enabled = True, ctx_has_parent = True\<rparr>\<rparr>] \<and>
   42 \<in> tab_data (tablets (tablet_store
     (sfs_enter op_getattr \<lparr>ctx_enabled = True, ctx_has_parent = True\<rparr> 42
        \<lparr>tablet_store = Tablets_new, attribution_stack = [], logical_thread_id = 0\<rparr>)) ! 0)"
  using handlers_frame_amended[of op_getattr "\<lparr>ctx_enabled = True, ctx_has_parent = True\<rparr>" 42
      "\<lparr>tablet_store = Tablets_new, attribution_stack = [], logical_thread_id = 0\<rparr>"]
  by simp

section \<open>Registry\<close>


lemma forget_one_decrement:
  "inodes fs key = Some r \<Longrightarrow> fd r \<noteq> -1 \<Longrightarrow> n < nlookup r \<Longrightarrow>
   forget_one fs (InodePtr key) n =
     Returned (fs\<lparr>inodes := (inodes fs)(key \<mapsto> r\<lparr>nlookup := nlookup r - n\<rparr>)\<rparr>)"
  by (simp add: forget_one_def get_inode_def set_inode_def Let_def)

lemma forget_one_remove:
  "inodes fs key = Some r \<Longrightarrow> fd r \<noteq> -1 \<Longrightarrow> (src_ino r, src_dev r) = key \<Longrightarrow>
   forget_one fs (InodePtr key) (nlookup r) =
     Returned (fs\<lparr>inodes := (inodes fs)(key := None),
                  closes := (if 0 < fd r then closes fs @ [fd r] else closes fs)\<rparr>)"
  by (auto simp: forget_one_def get_inode_def set_inode_def Let_def inodes_erase_def
      Inode_dtor_def)

lemma reg_invD:
  "reg_inv fs \<Longrightarrow> inodes fs key = Some r \<Longrightarrow>
   0 < nlookup r \<and> fd r \<noteq> -1 \<and> (src_ino r, src_dev r) = key"
  unfolding reg_inv_def by blast



lemma reg_inv_forget_one:
  assumes "reg_inv fs" "forget_one fs (InodePtr key) n = Returned fs'"
  shows "reg_inv fs'"
proof -
  from assms(2) obtain r where r: "inodes fs key = Some r"
    by (auto simp: forget_one_def get_inode_def split: option.splits)
  from reg_invD[OF assms(1) r]
  have p: "0 < nlookup r" "fd r \<noteq> -1" "(src_ino r, src_dev r) = key"
    by simp_all
  from assms(2) r p have le: "n \<le> nlookup r"
    by (auto simp: forget_one_def get_inode_def split: if_splits)
  show ?thesis
  proof (cases "n = nlookup r")
    case True
    from forget_one_remove[OF r p(2,3)] assms(2) True
    have "fs' = fs\<lparr>inodes := (inodes fs)(key := None),
                  closes := (if 0 < fd r then closes fs @ [fd r] else closes fs)\<rparr>"
      by simp
    then have "inodes fs' = (inodes fs)(key := None)" by simp
    with assms(1) show ?thesis
      unfolding reg_inv_def by (auto split: if_splits)
  next
    case False
    with le have lt: "n < nlookup r" by simp
    from forget_one_decrement[OF r p(2) lt] assms(2)
    have "fs' = fs\<lparr>inodes := (inodes fs)(key \<mapsto> r\<lparr>nlookup := nlookup r - n\<rparr>)\<rparr>"
      by simp
    then have i: "inodes fs' = (inodes fs)(key \<mapsto> r\<lparr>nlookup := nlookup r - n\<rparr>)" by simp
    have "0 < nlookup (r\<lparr>nlookup := nlookup r - n\<rparr>)"
      "fd (r\<lparr>nlookup := nlookup r - n\<rparr>) \<noteq> -1"
      "(src_ino (r\<lparr>nlookup := nlookup r - n\<rparr>), src_dev (r\<lparr>nlookup := nlookup r - n\<rparr>)) = key"
      using lt p by simp_all
    with assms(1) i show ?thesis
      unfolding reg_inv_def by (auto split: if_splits)
  qed
qed
















lemma forget_one_positive_descriptor_example:
  "forget_one (do_lookup (Fs_init 3) (5, 1) 4) (InodePtr (5, 1)) 1 =
     Returned ((Fs_init 3)\<lparr>closes := [4]\<rparr>)"
  by (simp add: forget_one_def get_inode_def set_inode_def Let_def inodes_erase_def
      Inode_dtor_def do_lookup_def Fs_init_def Inode_default_def)


section \<open>Writing the log\<close>

lemma TryWrite_retry:
  "e = EINTR \<or> e = EAGAIN \<or> e = EWOULDBLOCK \<Longrightarrow> buf \<noteq> [] \<Longrightarrow>
   TryWrite (WriteFailed e # script) out buf = TryWrite script out buf"
  by (cases buf) auto

lemma TryWrite_unrecoverable:
  "e \<noteq> EINTR \<Longrightarrow> e \<noteq> EAGAIN \<Longrightarrow> e \<noteq> EWOULDBLOCK \<Longrightarrow> buf \<noteq> [] \<Longrightarrow>
   TryWrite (WriteFailed e # script) out buf = Some (- 1, script, out)"
  by (cases buf) auto

lemma TryWrite_all:
  "buf \<noteq> [] \<Longrightarrow> length buf \<le> n \<Longrightarrow>
   TryWrite (Wrote n # script) out buf = Some (0, script, out @ buf)"
  by (cases buf) (auto simp: Let_def min_def)

lemma TryFsync_five_failures:
  "TryFsync (False # False # False # False # False # script) 5 = Some (False, script)"
  by (simp add: eval_nat_numeral)

lemma TryFsync_first_ok: "TryFsync (True # script) 5 = Some (True, script)"
  by (simp add: eval_nat_numeral)

lemma WritePidFile_fsync_failures_abort:
  "WritePidFile ''1234\<newline>''
     \<lparr>os_writes = [Wrote 5], os_fsyncs = [False, False, False, False, False], os_out = []\<rparr> =
   Some Aborted"
  by (simp add: WritePidFile_def TryFsync_five_failures Let_def)

lemma WriteLog_loop_miss:
  "\<forall>i\<in>set is. resolve i = Some (Inr None) \<Longrightarrow>
   WriteLog_loop resolve script out buf is = Some (Returned (script, out, buf))"
  by (induction "is") simp_all

lemma WriteLog_loop_one:
  assumes "distinct is" "r \<in> set is" "resolve r = Some (Inr (Some path))"
    "\<forall>i\<in>set is. i \<noteq> r \<longrightarrow> resolve i = Some (Inr None)"
    "length path \<le> sb_capacity buf"
  shows "WriteLog_loop resolve script out buf is =
         Some (Returned (script, out, strbuf_append (strbuf_append buf path) ''\<newline>''))"
  using assms
proof (induction "is")
  case Nil
  then show ?case by simp
next
  case (Cons i "is")
  show ?case
  proof (cases "i = r")
    case True
    with Cons.prems have "\<forall>j\<in>set is. resolve j = Some (Inr None)" by auto
    from WriteLog_loop_miss[OF this] True Cons.prems show ?thesis by simp
  next
    case False
    with Cons show ?thesis by simp
  qed
qed

lemma WriteLog_loop_no_flush:
  "\<forall>i\<in>set is. \<exists>path. resolve i = Some (Inr (Some path)) \<and> length path \<le> sb_capacity buf \<Longrightarrow>
   WriteLog_loop resolve script out buf is =
     Some (Returned (script, out,
       foldl (\<lambda>b i. case resolve i of
                       Some (Inr (Some path)) \<Rightarrow> strbuf_append (strbuf_append b path) ''\<newline>''
                     | _ \<Rightarrow> b) buf is))"
proof (induction "is" arbitrary: buf)
  case Nil
  then show ?case by simp
next
  case (Cons i "is")
  then obtain path where p: "resolve i = Some (Inr (Some path))" "length path \<le> sb_capacity buf"
    by auto
  let ?b = "strbuf_append (strbuf_append buf path) ''\<newline>''"
  have "sb_capacity buf \<le> sb_capacity ?b" by (simp add: strbuf_append_def)
  with Cons.prems
  have "\<forall>i\<in>set is. \<exists>path. resolve i = Some (Inr (Some path)) \<and> length path \<le> sb_capacity ?b"
    by (meson le_trans list.set_intros(2))
  from Cons.IH[OF this] p show ?case by simp
qed

lemma foldl_const_data:
  "sb_data (foldl (\<lambda>b i. strbuf_append (strbuf_append b path) s) buf is) =
     sb_data buf @ concat (replicate (length is) (path @ s))"
  by (induction "is" arbitrary: buf) (simp_all add: strbuf_append_def)


lemma foldl_const_capacity:
  "sb_capacity (foldl (\<lambda>b i. strbuf_append (strbuf_append b path) s) buf is) =
     (if is = [] then sb_capacity buf
      else max (sb_capacity buf) (length (sb_data buf) + length is * (length path + length s)))"
  by (induction "is" arbitrary: buf) (auto simp: strbuf_append_def)

lemma Sweep_fresh:
  "Sweep store Tablet_new =
     (store\<lparr>tablets := replicate (length (tablets store)) Tablet_new\<rparr>,
      \<lparr>tab_data = (\<Union>t\<in>set (tablets store). tab_data t)\<rparr>)"
proof -
  have "Sweep store Tablet_new =
      (store\<lparr>tablets := replicate (length (tablets store)) Tablet_new\<rparr>,
       merge_loop Tablet_new (tablets store))"
    by (simp add: Sweep_def Let_def swap_loop_fresh)
  moreover have "merge_loop Tablet_new (tablets store) =
      \<lparr>tab_data = (\<Union>t\<in>set (tablets store). tab_data t)\<rparr>"
    using merge_loop_data[of Tablet_new "tablets store"] by (simp add: Tablet_new_def)
  ultimately show ?thesis by simp
qed

lemma WriteLog_root:
  assumes en: "ctx_enabled ctx"
    and r: "r \<in> (\<Union>t\<in>set (tablets store). tab_data t)"
    and it: "set (iter (\<Union>t\<in>set (tablets store). tab_data t)) = (\<Union>t\<in>set (tablets store). tab_data t)"
      "distinct (iter (\<Union>t\<in>set (tablets store). tab_data t))"
    and tw: "TryWrite script old ''<root>\<newline>'' = Some (written, script', out')"
    and fs: "TryFsync fsyncs 5 = Some (ok, fsyncs')"
  shows "WriteLog ctx iter (MonikerTable_new r) store
           \<lparr>os_writes = script, os_fsyncs = fsyncs, os_out = old\<rparr> =
         (if written \<noteq> 0 then Some Aborted
          else Some (Returned (store\<lparr>tablets := replicate (length (tablets store)) Tablet_new\<rparr>,
                 \<lparr>os_writes = script', os_fsyncs = fsyncs', os_out = out'\<rparr>)))"
proof -
  let ?U = "\<Union>t\<in>set (tablets store). tab_data t"
  let ?buf = "strbuf_reserve strbuf_new kLogWriterBufferSize"
  let ?res = "\<lambda>inode. MonikerTable_Get (MonikerTable_new r) inode (Suc 0) True"
  have cap: "length ''<root>'' \<le> sb_capacity ?buf"
    by (simp add: strbuf_reserve_def strbuf_new_def kLogWriterBufferSize_def)
  have rin: "r \<in> set (iter ?U)" using r it(1) by simp
  have miss: "\<forall>i\<in>set (iter ?U). i \<noteq> r \<longrightarrow> ?res i = Some (Inr None)"
    by (simp add: Get_new_other)
  have loop: "WriteLog_loop ?res script old ?buf (iter ?U) =
      Some (Returned (script, old,
        strbuf_append (strbuf_append ?buf ''<root>'') ''\<newline>''))"
    by (rule WriteLog_loop_one[OF it(2) rin Get_new_root miss cap])
  have data: "sb_data (strbuf_append (strbuf_append ?buf ''<root>'') ''\<newline>'') = ''<root>\<newline>''"
    by (simp add: strbuf_append_def strbuf_reserve_def strbuf_new_def)
  show ?thesis
    using en by (simp add: WriteLog_def Let_def Sweep_fresh loop data tw fs)
qed

lemma TryWrite_root_line:
  "TryWrite [Wrote 7] [] ''<root>\<newline>'' = Some (0, [], ''<root>\<newline>'')"
  using TryWrite_all[of "''<root>\<newline>''" 7 "[]" "[]"] by simp

lemma enumerate_one:
  "set (sorted_list_of_set (\<Union>t\<in>set (tablets \<lparr>tablets = [\<lparr>tab_data = {1 :: u64}\<rparr>]\<rparr>). tab_data t)) =
     (\<Union>t\<in>set (tablets \<lparr>tablets = [\<lparr>tab_data = {1 :: u64}\<rparr>]\<rparr>). tab_data t) \<and>
   distinct (sorted_list_of_set (\<Union>t\<in>set (tablets \<lparr>tablets = [\<lparr>tab_data = {1 :: u64}\<rparr>]\<rparr>). tab_data t)) \<and>
   (1 :: u64) \<in> (\<Union>t\<in>set (tablets \<lparr>tablets = [\<lparr>tab_data = {1 :: u64}\<rparr>]\<rparr>). tab_data t)"
  by simp

















text \<open>
  Claim C7, which the code does not meet for \<open>fsync\<close>. \<open>WriteLog\<close> does not read
  the result of \<open>TryFsync\<close>: when all five calls of \<open>fsync\<close> fail it returns
  as after a success, and the process does not abort. (Lemmas of this section prove the parts on
  \<open>write\<close>: a failure with \<open>EINTR\<close>, \<open>EAGAIN\<close> or \<open>EWOULDBLOCK\<close> is retried and
  any other failure makes \<open>TryWrite\<close> return a negative result, on which
  \<open>WriteLog\<close> aborts; the writer of the pid file does abort on the same result of
  \<open>TryFsync\<close>.)
\<close>

theorem WriteLog_returns_when_fsync_fails:
  "WriteLog \<lparr>ctx_enabled = True, ctx_has_parent = False\<rparr> sorted_list_of_set (MonikerTable_new 1)
     \<lparr>tablets = [\<lparr>tab_data = {1}\<rparr>]\<rparr>
     \<lparr>os_writes = [Wrote 7], os_fsyncs = [False, False, False, False, False], os_out = []\<rparr> =
   Some (Returned (\<lparr>tablets = [Tablet_new]\<rparr>,
           \<lparr>os_writes = [], os_fsyncs = [], os_out = ''<root>\<newline>''\<rparr>))"
  using WriteLog_root[of "\<lparr>ctx_enabled = True, ctx_has_parent = False\<rparr>" 1
      "\<lparr>tablets = [\<lparr>tab_data = {1}\<rparr>]\<rparr>" sorted_list_of_set
      "[Wrote 7]" "[]" 0 "[]" "''<root>\<newline>''"
      "[False, False, False, False, False]" False "[]"]
    enumerate_one
  by (simp add: TryFsync_five_failures TryWrite_root_line Tablet_new_def)

lemma WriteLog_aborts_on_unrecoverable_write:
  "WriteLog \<lparr>ctx_enabled = True, ctx_has_parent = False\<rparr> sorted_list_of_set (MonikerTable_new 1)
     \<lparr>tablets = [\<lparr>tab_data = {1}\<rparr>]\<rparr>
     \<lparr>os_writes = [WriteFailed EINTR, WriteFailed EIO], os_fsyncs = [True], os_out = []\<rparr> =
   Some Aborted"
proof -
  have "TryWrite [WriteFailed EINTR, WriteFailed EIO] [] ''<root>\<newline>'' = Some (- 1, [], [])"
    by simp
  from WriteLog_root[of "\<lparr>ctx_enabled = True, ctx_has_parent = False\<rparr>" 1
      "\<lparr>tablets = [\<lparr>tab_data = {1}\<rparr>]\<rparr>" sorted_list_of_set, OF _ _ _ _ this TryFsync_first_ok]
    enumerate_one
  show ?thesis by simp
qed

lemma unat_small: "i < 1025 \<Longrightarrow> unat (of_nat i :: u64) = i"
  by (simp add: unat_of_nat)

lemma inodes_distinct: "distinct (map of_nat [0..<1025] :: u64 list)"
proof -
  have "inj_on (of_nat :: nat \<Rightarrow> u64) (set [0..<1025])"
    by (rule inj_on_inverseI[where g = unat]) (simp add: unat_small)
  then show ?thesis by (simp add: distinct_map)
qed

lemma inodes_not_root: "i < 1025 \<Longrightarrow> (of_nat i :: u64) \<noteq> 5000"
proof
  assume i: "i < 1025" and e: "(of_nat i :: u64) = 5000"
  from arg_cong[OF e, of unat] i show False by (simp add: unat_small)
qed

lemma long_paths_table:
  assumes "x \<in> set (map of_nat [0..<1025] :: u64 list)"
  shows "MonikerTable_Get
           (Insert_all (MonikerTable_new 5000)
              (map (\<lambda>i. (of_nat i, replicate 4095 CHR ''a'')) [0..<1025]))
           x off fq =
         Some (Inr (Some (replicate 4095 CHR ''a'')))"
proof -
  let ?xs = "map (\<lambda>i. (of_nat i :: u64, replicate 4095 CHR ''a'')) [0..<1025]"
  have d: "distinct (map fst ?xs)"
    using inodes_distinct by (simp add: comp_def)
  obtain c where t: "mt_id_to_terminal (MonikerTable_new 5000) = [5000 \<mapsto> c]"
    using terminal_new[of 5000] by blast
  have n: "\<forall>y\<in>set ?xs. mt_id_to_terminal (MonikerTable_new 5000) (fst y) = None"
    using inodes_not_root by (auto simp: t)
  have m: "(x, replicate 4095 CHR ''a'') \<in> set ?xs"
    using assms by auto
  have c: "join_with CHR ''/'' (components (replicate 4095 CHR ''a'')) = replicate 4095 CHR ''a''"
    by (subst components_single) simp_all
  from Get_Insert_all[OF minv_new tinv_new d n m, of off fq] c show ?thesis by simp
qed

text \<open>
  Claim C8, which the code does not meet. The loop flushes when the capacity of the
  buffer is below the length of the next path, not when the path does not fit in the
  space left: on a table in which 1025 inodes have paths of 4095 bytes, and for a tablet
  of these inodes, the loop calls \<open>write\<close> not once (no result of \<open>write\<close> is at
  hand, and the loop returns) and the buffer ends with 4198400 bytes, above the 4194304
  it reserved.
\<close>

theorem log_buffer_outgrows_reserve:
  "WriteLog_loop
     (\<lambda>inode. MonikerTable_Get
        (Insert_all (MonikerTable_new 5000)
           (map (\<lambda>i. (of_nat i, replicate 4095 CHR ''a'')) [0..<1025])) inode 1 True)
     [] [] (strbuf_reserve strbuf_new kLogWriterBufferSize) (map of_nat [0..<1025]) =
   Some (Returned ([], [],
     \<lparr>sb_data = concat (replicate 1025 (replicate 4095 CHR ''a'' @ ''\<newline>'')),
      sb_capacity = 4198400\<rparr>)) \<and>
   length (concat (replicate 1025 (replicate 4095 CHR ''a'' @ ''\<newline>''))) = 4198400 \<and>
   kLogWriterBufferSize < 4198400"
proof -
  let ?res = "\<lambda>inode. MonikerTable_Get
        (Insert_all (MonikerTable_new 5000)
           (map (\<lambda>i. (of_nat i, replicate 4095 CHR ''a'')) [0..<1025])) inode (Suc 0) True"
  let ?buf = "strbuf_reserve strbuf_new kLogWriterBufferSize"
  let ?is = "map of_nat [0..<1025] :: u64 list"
  let ?f = "\<lambda>b i. case ?res i of
                       Some (Inr (Some path)) \<Rightarrow> strbuf_append (strbuf_append b path) ''\<newline>''
                     | _ \<Rightarrow> b"
  let ?g = "\<lambda>b (i :: u64). strbuf_append (strbuf_append b (replicate 4095 CHR ''a'')) ''\<newline>''"
  have cap: "sb_capacity ?buf = 4194304" "sb_data ?buf = []"
    by (simp_all add: strbuf_reserve_def strbuf_new_def kLogWriterBufferSize_def)
  have res: "?res x = Some (Inr (Some (replicate 4095 CHR ''a'')))" if "x \<in> set ?is" for x
    by (rule long_paths_table[OF that])
  have "\<forall>i\<in>set ?is. \<exists>path. ?res i = Some (Inr (Some path)) \<and> length path \<le> sb_capacity ?buf"
    using res by (simp add: cap)
  from WriteLog_loop_no_flush[OF this, of "[]" "[]"]
  have loop: "WriteLog_loop ?res [] [] ?buf ?is = Some (Returned ([], [], foldl ?f ?buf ?is))" .
  have fg: "foldl ?f ?buf ?is = foldl ?g ?buf ?is"
    by (rule foldl_cong[OF refl refl]) (simp add: res)
  have d: "sb_data (foldl ?g ?buf ?is) = concat (replicate 1025 (replicate 4095 CHR ''a'' @ ''\<newline>''))"
    by (simp add: foldl_const_data cap)
  have c: "sb_capacity (foldl ?g ?buf ?is) = 4198400"
    by (simp add: foldl_const_capacity cap)
  have B: "foldl ?g ?buf ?is =
      \<lparr>sb_data = concat (replicate 1025 (replicate 4095 CHR ''a'' @ ''\<newline>'')),
       sb_capacity = 4198400\<rparr>"
    using d c by (cases "foldl ?g ?buf ?is") simp
  have l: "length (concat (replicate 1025 (replicate 4095 CHR ''a'' @ ''\<newline>''))) = 4198400"
    by (simp add: length_concat sum_list_replicate)
  have k: "kLogWriterBufferSize < 4198400" by (simp add: kLogWriterBufferSize_def)
  have "WriteLog_loop ?res [] [] ?buf ?is =
     Some (Returned ([], [],
       \<lparr>sb_data = concat (replicate 1025 (replicate 4095 CHR ''a'' @ ''\<newline>'')),
        sb_capacity = 4198400\<rparr>))"
    by (simp only: loop fg B)
  with l k show ?thesis by (simp only: One_nat_def simp_thms)
qed

end
